theory Spec2Isabelle
  imports Main "HOL-Library.Word" "HOL-Library.Multiset"
begin

unbundle bit_operations_syntax

section \<open>The match tree of the NLP engine (nlp-engine/tree.cpp)\<close>

text \<open>
  The development embeds \<^verbatim>\<open>Lvk::Nlp::Tree\<close>: the tree builder (\<^verbatim>\<open>add\<close>,
  \<^verbatim>\<open>addNode\<close>, \<^verbatim>\<open>addNodeOutput\<close>), the packed output-map key, and the query side
  (\<^verbatim>\<open>getResponses\<close>, \<^verbatim>\<open>scoredDFS\<close>, \<^verbatim>\<open>handleEndWord\<close>, \<^verbatim>\<open>getValidOutput\<close>,
  \<^verbatim>\<open>expandVars\<close>, \<^verbatim>\<open>getRecResponse\<close>).

  Nodes live on the C++ heap and point at each other (parent back pointers, self loops in
  the child list), so the tree is an explicit store: a list of nodes, a pointer being an
  index into it, \<^verbatim>\<open>new\<close> appending a node. The root \<^verbatim>\<open>m_root\<close> is index 0.

  The collaborators declared in headers that are not part of the sources (the lemmatizer,
  the token classification of \<^verbatim>\<open>Nlp::Word\<close>, the match policy, the scoring algorithm, the
  variable stack, the conditional output list and the variable parser) are parameters,
  collected in the record \<open>env\<close>. The C++ \<^verbatim>\<open>float\<close> of weights and scores is only
  compared, so it is a type \<open>'f\<close> of a linear order with a zero.
\<close>

subsection \<open>Strings of Qt\<close>

text \<open>
  \<^verbatim>\<open>QString::mid(position, n)\<close> as Qt defines it: nothing past the end, a negative
  \<open>n\<close> (the default is -1) means all that is left, and a count that runs over the end is
  cut.
\<close>

definition qmid :: "string \<Rightarrow> int \<Rightarrow> int \<Rightarrow> string" where
  "qmid s position n =
     (let sz = int (length s) in
      if position > sz then []
      else
        let n1 = (if n < 0 then sz - position else n);
            n2 = (if position < 0 then n1 + position else n1);
            pos2 = (if position < 0 then 0 else position);
            n3 = (if n2 + pos2 > sz then sz - pos2 else n2)
        in take (nat n3) (drop (nat pos2) s))"

text \<open>\<^verbatim>\<open>QString::toLower\<close> on the ASCII letters.\<close>

definition toLowerChar :: "char \<Rightarrow> char" where
  "toLowerChar c =
     (let n = (of_char c :: nat) in if 65 \<le> n \<and> n \<le> 90 then char_of (n + 32) else c)"

definition toLower :: "string \<Rightarrow> string" where
  "toLower s = map toLowerChar s"

subsection \<open>Tokens, nodes, rules\<close>

text \<open>\<^verbatim>\<open>Nlp::Word\<close>: the four strings tree.cpp reads and writes.\<close>

record nlpWord =
  origWord :: string
  normWord :: string
  wlemma :: string
  posTag :: string

text \<open>
  Modelled from the spec: the operator tokens \<^verbatim>\<open>STAR_OP\<close> and \<^verbatim>\<open>PLUS_OP\<close>, macros of a
  header that is not part of the sources; the spec gives \<^verbatim>\<open>*\<close> (zero or more) and
  \<^verbatim>\<open>+\<close> (one or more).
\<close>

definition STAR_OP :: string where
  "STAR_OP = ''*''"

definition PLUS_OP :: string where
  "PLUS_OP = ''+''"

text \<open>
  The node classes: the base \<^verbatim>\<open>Nlp::Node\<close> (the root), \<^verbatim>\<open>WordNode\<close>,
  \<^verbatim>\<open>WildcardNode\<close> with its mutable \<^verbatim>\<open>min\<close>, and \<^verbatim>\<open>VariableNode\<close>.
\<close>

datatype nodeType =
    RootNode
  | WordNode nlpWord
  | WildcardNode string nat
  | VariableNode string

type_synonym omapKey = "64 word"

record 'col node =
  ntype :: nodeType
  parent :: "nat option"
  childs :: "nat list"
  omap :: "(omapKey \<times> 'col) list"

type_synonym 'col tree = "'col node list"

text \<open>
  \<^verbatim>\<open>Nlp::Rule\<close>: \<^verbatim>\<open>id()\<close>, \<^verbatim>\<open>input()\<close> and \<^verbatim>\<open>output()\<close>. The output is kept as the
  \<^verbatim>\<open>CondOutputList\<close> that \<^verbatim>\<open>addNodeOutput\<close> builds from it, an opaque value \<open>'col\<close>.
\<close>

record 'col rule =
  rule_id :: "64 word"
  rule_input :: "string list"
  rule_output :: 'col

text \<open>\<^verbatim>\<open>Nlp::Result\<close> and the \<^verbatim>\<open>Engine::RuleMatch\<close> pair.\<close>

record 'f result =
  routput :: string
  ruleId :: "64 word"
  inputIdx :: "32 word"
  score :: 'f

type_synonym ruleMatch = "64 word \<times> 32 word"

subsection \<open>The external collaborators\<close>

record ('vs, 'sc, 'f, 'col) env =
  lemmatize :: "string \<Rightarrow> nlpWord list"
  isWord :: "nlpWord \<Rightarrow> bool"
  isWildcard :: "nlpWord \<Rightarrow> bool"
  isVariable :: "nlpWord \<Rightarrow> bool"
  isSymbol :: "nlpWord \<Rightarrow> bool"
  matchPolicy :: "'col node \<Rightarrow> nlpWord \<Rightarrow> 'f"
  sc_new :: 'sc
  sc_updateScore :: "nat \<Rightarrow> 'f \<Rightarrow> 'sc \<Rightarrow> 'sc"
  sc_currentScore :: "'sc \<Rightarrow> 'f"
  vs_new :: 'vs
  vs_update :: "string \<Rightarrow> nat \<Rightarrow> 'vs \<Rightarrow> 'vs"
  vs_capture :: "string \<Rightarrow> nat \<Rightarrow> 'vs \<Rightarrow> 'vs"
  vs_value :: "'vs \<Rightarrow> string \<Rightarrow> string"
  nextValidOutput :: "'col \<Rightarrow> 'vs \<Rightarrow> string option"
  parseVariable :: "string \<Rightarrow> int \<Rightarrow> (int \<times> string \<times> bool) option"

subsection \<open>The packed output-map key\<close>

text \<open>
  \<^verbatim>\<open>MAX_INPUT_IDX_SIZE\<close> is 10 and \<^verbatim>\<open>INPUT_IDX_MASK\<close> is \<open>(1 << 10) - 1\<close>. The input
  index is a C++ \<^verbatim>\<open>int\<close> (32 bits, read with \<open>sint\<close>), the key a \<^verbatim>\<open>quint64\<close>.
  Modelled from the spec: \<^verbatim>\<open>Nlp::RuleId\<close>, a typedef of a header that is not part of
  the sources, is the unsigned 64-bit integer of the key.
\<close>

definition MAX_INPUT_IDX_SIZE :: nat where
  "MAX_INPUT_IDX_SIZE = 10"

definition INPUT_IDX_MASK :: "32 word" where
  "INPUT_IDX_MASK = push_bit MAX_INPUT_IDX_SIZE 1 - 1"

definition getOmapId :: "64 word \<Rightarrow> 32 word \<Rightarrow> omapKey" where
  "getOmapId rid idx = scast (idx AND INPUT_IDX_MASK) + push_bit MAX_INPUT_IDX_SIZE rid"

definition getRuleId :: "omapKey \<Rightarrow> 64 word" where
  "getRuleId k = drop_bit MAX_INPUT_IDX_SIZE k"

definition getInputIndex :: "omapKey \<Rightarrow> 32 word" where
  "getInputIndex k = ucast (k AND scast INPUT_IDX_MASK)"

subsection \<open>Parsing rule inputs and user inputs\<close>

fun filterSymbols :: "('vs, 'sc, 'f, 'col) env \<Rightarrow> nlpWord list \<Rightarrow> nlpWord list" where
  "filterSymbols E [] = []"
| "filterSymbols E (w # ws) =
     (if isSymbol E w then filterSymbols E ws else w # filterSymbols E ws)"

definition exactMatchWord :: "nlpWord \<Rightarrow> nlpWord" where
  "exactMatchWord w =
     (let s = origWord w in
      if 3 \<le> length s \<and> hd s = CHR 0x27 \<and> last s = CHR 0x27
      then (let s' = toLower (qmid s 1 (int (length s) - 2))
            in w\<lparr>origWord := s', normWord := s', wlemma := [], posTag := []\<rparr>)
      else w)"

definition parseExactMatch :: "nlpWord list \<Rightarrow> nlpWord list" where
  "parseExactMatch ws = map exactMatchWord ws"

definition parseRuleInput :: "('vs, 'sc, 'f, 'col) env \<Rightarrow> string \<Rightarrow> nlpWord list" where
  "parseRuleInput E inp = filterSymbols E (parseExactMatch (lemmatize E inp))"

definition parseUserInput :: "('vs, 'sc, 'f, 'col) env \<Rightarrow> string \<Rightarrow> nlpWord list" where
  "parseUserInput E inp = filterSymbols E (lemmatize E (filter (\<lambda>c. c \<noteq> CHR 0x27) inp))"

subsection \<open>The tree builder\<close>

text \<open>The tree of the constructor: the root alone.\<close>

definition rootNode :: "'col node" where
  "rootNode = \<lparr>ntype = RootNode, parent = None, childs = [], omap = []\<rparr>"

definition newTree :: "'col tree" where
  "newTree = [rootNode]"

text \<open>The dynamic casts \<^verbatim>\<open>node->to<WordNode>()\<close> and \<^verbatim>\<open>node->to<WildcardNode>()\<close>.\<close>

definition isWordNodeOf :: "'col tree \<Rightarrow> nlpWord \<Rightarrow> nat \<Rightarrow> bool" where
  "isWordNodeOf T w c = (case ntype (T ! c) of WordNode w' \<Rightarrow> w' = w | _ \<Rightarrow> False)"

definition isWildcardNode :: "'col tree \<Rightarrow> nat \<Rightarrow> bool" where
  "isWildcardNode T c = (case ntype (T ! c) of WildcardNode s m \<Rightarrow> True | _ \<Rightarrow> False)"

definition wcMin :: "'col node \<Rightarrow> nat option" where
  "wcMin nd = (case ntype nd of WildcardNode s m \<Rightarrow> Some m | _ \<Rightarrow> None)"

definition setMin :: "nat \<Rightarrow> 'col node \<Rightarrow> 'col node" where
  "setMin m nd =
     (case ntype nd of WildcardNode s m' \<Rightarrow> nd\<lparr>ntype := WildcardNode s m\<rparr> | _ \<Rightarrow> nd)"

definition appendChild :: "nat \<Rightarrow> nat \<Rightarrow> 'col tree \<Rightarrow> 'col tree" where
  "appendChild p c T = T[p := (T ! p)\<lparr>childs := childs (T ! p) @ [c]\<rparr>]"

text \<open>
  Modelled from the spec: the constructor of \<^verbatim>\<open>WildcardNode\<close> (node.h is not part of the
  sources) sets \<^verbatim>\<open>min\<close> from the token: 0 for \<^verbatim>\<open>*\<close>, 1 for \<^verbatim>\<open>+\<close>.
\<close>

definition wildcardMin :: "string \<Rightarrow> nat" where
  "wildcardMin s = (if s = STAR_OP then 0 else 1)"

definition makeNode :: "('vs, 'sc, 'f, 'col) env \<Rightarrow> nlpWord \<Rightarrow> nat \<Rightarrow> nat \<Rightarrow> 'col node" where
  "makeNode E w p new =
     (if isWildcard E w then
        \<lparr>ntype = WildcardNode (origWord w) (wildcardMin (origWord w)),
         parent = Some p, childs = [new], omap = []\<rparr>
      else if isVariable E w then
        \<lparr>ntype = VariableNode (qmid (origWord w) 1 (int (length (origWord w)) - 2)),
         parent = Some p, childs = [new], omap = []\<rparr>
      else
        \<lparr>ntype = WordNode w, parent = Some p, childs = [], omap = []\<rparr>)"

text \<open>
  \<^verbatim>\<open>addNode(word, parent)\<close> returns the node and the store. \<open>None\<close> is the null
  dereference of \<^verbatim>\<open>parent->parent->childs\<close> under a parent that has none.
\<close>

definition addNode ::
  "('vs, 'sc, 'f, 'col) env \<Rightarrow> nlpWord \<Rightarrow> nat \<Rightarrow> 'col tree \<Rightarrow> (nat \<times> 'col tree) option"
where
  "addNode E w p T =
     (case (if isWord E w then find (isWordNodeOf T w) (childs (T ! p)) else None) of
        Some c \<Rightarrow> Some (c, T)
      | None \<Rightarrow>
         (case (if isWildcard E w then find (isWildcardNode T) (childs (T ! p)) else None) of
            Some c \<Rightarrow>
              Some (c, if origWord w = STAR_OP \<and> wcMin (T ! c) = Some 1
                       then T[c := setMin 0 (T ! c)] else T)
          | None \<Rightarrow>
              (let new = length T;
                   T1 = appendChild p new (T @ [makeNode E w p new])
               in if wcMin (T1 ! p) = Some 0
                  then (case parent (T1 ! p) of
                          None \<Rightarrow> None
                        | Some pp \<Rightarrow> Some (new, appendChild pp new T1))
                  else Some (new, T1))))"

text \<open>The loop \<^verbatim>\<open>foreach (Nlp::Word w, words) curNode = addNode(w, curNode)\<close>.\<close>

fun addWords ::
  "('vs, 'sc, 'f, 'col) env \<Rightarrow> nlpWord list \<Rightarrow> nat \<Rightarrow> 'col tree \<Rightarrow> (nat \<times> 'col tree) option"
where
  "addWords E [] cur T = Some (cur, T)"
| "addWords E (w # ws) cur T =
     (case addNode E w cur T of
        None \<Rightarrow> None
      | Some (c, T') \<Rightarrow> addWords E ws c T')"

text \<open>
  \<^verbatim>\<open>QMap::operator[]\<close> followed by an assignment: the map is kept in ascending key order,
  which is the order \<^verbatim>\<open>getValidOutput\<close> iterates in.
\<close>

fun omapInsert :: "omapKey \<Rightarrow> 'col \<Rightarrow> (omapKey \<times> 'col) list \<Rightarrow> (omapKey \<times> 'col) list" where
  "omapInsert k v [] = [(k, v)]"
| "omapInsert k v ((k', v') # m) =
     (if k < k' then (k, v) # (k', v') # m
      else if k = k' then (k, v) # m
      else (k', v') # omapInsert k v m)"

text \<open>
  \<^verbatim>\<open>addNodeOutput\<close>. The set \<^verbatim>\<open>onodes\<close> is a duplicate-free list of pairs (input index,
  node); every pair stores the same list, so the iteration order of the \<^verbatim>\<open>QSet\<close> does
  not show in the result.
\<close>

fun addNodeOutput :: "'col rule \<Rightarrow> (nat \<times> nat) list \<Rightarrow> 'col tree \<Rightarrow> 'col tree" where
  "addNodeOutput r [] T = T"
| "addNodeOutput r ((i, n) # ons) T =
     addNodeOutput r ons
       (T[n := (T ! n)\<lparr>omap := omapInsert (getOmapId (rule_id r) (of_nat i)) (rule_output r)
                                  (omap (T ! n))\<rparr>])"

text \<open>
  The loop of \<^verbatim>\<open>add\<close> over the inputs of the rule, from input \<open>i\<close> on. \<open>None\<close> is a
  null dereference: in \<^verbatim>\<open>addNode\<close>, or of a terminal node's missing parent.
\<close>

fun addInputs ::
  "('vs, 'sc, 'f, 'col) env \<Rightarrow> string list \<Rightarrow> nat \<Rightarrow> (nat \<times> nat) list \<Rightarrow> 'col tree
     \<Rightarrow> ((nat \<times> nat) list \<times> 'col tree) option"
where
  "addInputs E [] i onodes T = Some (onodes, T)"
| "addInputs E (inp # rest) i onodes T =
     (let ws = parseRuleInput E inp in
      if ws = [] then addInputs E rest (i + 1) onodes T
      else
        (case addWords E ws 0 T of
           None \<Rightarrow> None
         | Some (cur, T') \<Rightarrow>
             (let onodes1 = List.insert (i, cur) onodes in
              if normWord (last ws) = STAR_OP \<and> parent (T' ! cur) \<noteq> Some 0
              then (case parent (T' ! cur) of
                      None \<Rightarrow> None
                    | Some pp \<Rightarrow> addInputs E rest (i + 1) (List.insert (i, pp) onodes1) T')
              else addInputs E rest (i + 1) onodes1 T')))"

definition add ::
  "('vs, 'sc, 'f, 'col) env \<Rightarrow> 'col rule \<Rightarrow> 'col tree \<Rightarrow> 'col tree option"
where
  "add E r T =
     (case addInputs E (rule_input r) 0 [] T of
        None \<Rightarrow> None
      | Some (onodes, T') \<Rightarrow> Some (addNodeOutput r onodes T'))"

text \<open>A sequence of \<^verbatim>\<open>add\<close> calls on a tree.\<close>

fun addRules ::
  "('vs, 'sc, 'f, 'col) env \<Rightarrow> 'col rule list \<Rightarrow> 'col tree \<Rightarrow> 'col tree option"
where
  "addRules E [] T = Some T"
| "addRules E (r # rs) T =
     (case add E r T of
        None \<Rightarrow> None
      | Some T' \<Rightarrow> addRules E rs T')"

subsection \<open>Sorting the results\<close>

definition highScoreFirst :: "('f::linorder) result \<Rightarrow> 'f result \<Rightarrow> bool" where
  "highScoreFirst r1 r2 = (score r2 < score r1)"

text \<open>
  \<^verbatim>\<open>qSort(begin, end, lessThan)\<close> is the quicksort of Qt 4's \<^verbatim>\<open>QtAlgorithms\<close>
  (\<^verbatim>\<open>QAlgorithmsPrivate::qSortHelper\<close>), here as the template is instantiated by
  \<^verbatim>\<open>getResponses\<close>: on a list of results, with \<^verbatim>\<open>highScoreFirst\<close> as \<^verbatim>\<open>lessThan\<close>. The
  list is the range \<open>[start, end)\<close>, iterators are indices. The algorithm orders the first,
  the middle and the last element, parks the middle one at the end as the pivot, moves
  \<^verbatim>\<open>low\<close> up and \<^verbatim>\<open>high\<close> down swapping misplaced pairs, puts the pivot between the two
  parts and sorts each part.
\<close>

definition qSwap :: "'a list \<Rightarrow> nat \<Rightarrow> nat \<Rightarrow> 'a list" where
  "qSwap a i j = a[i := a ! j, j := a ! i]"

text \<open>\<^verbatim>\<open>while (low < high && lessThan(*low, *end)) ++low;\<close>\<close>

function scanLow :: "('f::linorder) result list \<Rightarrow> nat \<Rightarrow> nat \<Rightarrow> nat \<Rightarrow> nat" where
  "scanLow a e low high =
     (if low < high \<and> highScoreFirst (a ! low) (a ! e) then scanLow a e (low + 1) high
      else low)"
  by pat_completeness auto
termination
  by (relation "measure (\<lambda>(a, e, low, high). high - low)") auto

text \<open>\<^verbatim>\<open>while (high > low && lessThan(*end, *high)) --high;\<close>\<close>

function scanHigh :: "('f::linorder) result list \<Rightarrow> nat \<Rightarrow> nat \<Rightarrow> nat \<Rightarrow> nat" where
  "scanHigh a e low high =
     (if low < high \<and> highScoreFirst (a ! e) (a ! high) then scanHigh a e low (high - 1)
      else high)"
  by pat_completeness auto
termination
  by (relation "measure (\<lambda>(a, e, low, high). high)") auto

declare scanLow.simps [simp del] scanHigh.simps [simp del]

lemma scanLow_bounds: "low \<le> high \<Longrightarrow> low \<le> scanLow a e low high \<and> scanLow a e low high \<le> high"
proof (induction a e low high rule: scanLow.induct)
  case (1 a e low high)
  show ?case using 1 scanLow.simps [of a e low high] by (auto split: if_splits)
qed

lemma scanHigh_bounds: "low \<le> high \<Longrightarrow> low \<le> scanHigh a e low high \<and> scanHigh a e low high \<le> high"
proof (induction a e low high rule: scanHigh.induct)
  case (1 a e low high)
  show ?case
  proof (cases "low < high \<and> highScoreFirst (a ! e) (a ! high)")
    case True
    then have "low \<le> high - 1" by arith
    from "1.IH" [OF True this] True scanHigh.simps [of a e low high]
    show ?thesis by auto
  next
    case False
    then show ?thesis using 1(2) scanHigh.simps [of a e low high] by auto
  qed
qed

text \<open>The outer \<^verbatim>\<open>while (low < high)\<close> loop; it returns \<^verbatim>\<open>low\<close> and the array.\<close>

function partitionLoop ::
  "('f::linorder) result list \<Rightarrow> nat \<Rightarrow> nat \<Rightarrow> nat \<Rightarrow> nat \<times> 'f result list"
where
  "partitionLoop a e low high =
     (if low < high then
        (let l = scanLow a e low high;
             h = scanHigh a e l high
         in if l < h then partitionLoop (qSwap a l h) e (l + 1) (h - 1) else (l, a))
      else (low, a))"
  by pat_completeness auto
termination
proof (relation "measure (\<lambda>(a, e, low, high). high)", goal_cases)
  case 1
  show ?case by simp
next
  case (2 a e low high l h)
  have "low \<le> l \<and> l \<le> high"
    using 2(1,2) scanLow_bounds [of low high a e] by simp
  then have "h \<le> high"
    using 2(3) scanHigh_bounds [of l high a e] by simp
  then show ?case using 2(4) by simp
qed

declare partitionLoop.simps [simp del]

lemma length_qSwap [simp]: "length (qSwap a i j) = length a"
  by (simp add: qSwap_def)

lemma partitionLoop_props:
  "low \<le> high + 1 \<Longrightarrow> partitionLoop a e low high = (l, b) \<Longrightarrow>
     length b = length a \<and> low \<le> l \<and> l \<le> high + 1"
proof (induction a e low high arbitrary: l b rule: partitionLoop.induct)
  case (1 a e low high)
  show ?case
  proof (cases "low < high")
    case False
    then have "partitionLoop a e low high = (low, a)"
      by (subst partitionLoop.simps) simp
    then show ?thesis using 1(2,3) by simp
  next
    case True
    define l0 where "l0 = scanLow a e low high"
    define h0 where "h0 = scanHigh a e l0 high"
    have b1: "low \<le> l0 \<and> l0 \<le> high"
      using True scanLow_bounds [of low high a e] by (simp add: l0_def)
    then have b2: "l0 \<le> h0 \<and> h0 \<le> high"
      using scanHigh_bounds [of l0 high a e] by (simp add: h0_def)
    show ?thesis
    proof (cases "l0 < h0")
      case False
      then have "partitionLoop a e low high = (l0, a)"
        using True by (subst partitionLoop.simps) (simp add: l0_def h0_def Let_def)
      then show ?thesis using 1(3) b1 by auto
    next
      case lt: True
      then have eq: "partitionLoop a e low high = partitionLoop (qSwap a l0 h0) e (l0 + 1) (h0 - 1)"
        using True by (subst partitionLoop.simps) (simp add: l0_def h0_def Let_def)
      have "length b = length (qSwap a l0 h0) \<and> l0 + 1 \<le> l \<and> l \<le> h0 - 1 + 1"
        using "1.IH" [OF True l0_def h0_def lt, of l b] lt eq 1(3) by simp
      then show ?thesis using b1 b2 lt by auto
    qed
  qed
qed

text \<open>
  The three stages of one round on a range of at least two elements:
  \<^item> \<open>orderEnds\<close>: \<^verbatim>\<open>if (lessThan(*end, *start)) qSwap(*end, *start);\<close> (after
    \<^verbatim>\<open>--end\<close>), all that is done to a range of two;
  \<^item> \<open>orderPivot\<close>: then the two conditional swaps around \<^verbatim>\<open>pivot = start + span / 2\<close>,
    all that is done to a range of three;
  \<^item> \<open>partitionStep\<close>: \<^verbatim>\<open>qSwap(*pivot, *end)\<close>, the loop from \<^verbatim>\<open>low = start\<close> and
    \<^verbatim>\<open>high = end - 1\<close>, the last \<^verbatim>\<open>if (lessThan(*low, *end)) ++low;\<close> and
    \<^verbatim>\<open>qSwap(*end, *low)\<close>; it returns \<^verbatim>\<open>low\<close> and the array.
\<close>

definition orderEnds :: "('f::linorder) result list \<Rightarrow> 'f result list" where
  "orderEnds a =
     (let e = length a - 1 in
      if highScoreFirst (a ! e) (a ! 0) then qSwap a e 0 else a)"

definition orderPivot :: "('f::linorder) result list \<Rightarrow> 'f result list" where
  "orderPivot a =
     (let e = length a - 1;
          pivot = length a div 2;
          a1 = orderEnds a;
          a2 = (if highScoreFirst (a1 ! pivot) (a1 ! 0) then qSwap a1 pivot 0 else a1)
      in if highScoreFirst (a2 ! e) (a2 ! pivot) then qSwap a2 e pivot else a2)"

definition partitionStep :: "('f::linorder) result list \<Rightarrow> nat \<times> 'f result list" where
  "partitionStep a3 =
     (let e = length a3 - 1;
          pivot = length a3 div 2;
          a4 = qSwap a3 pivot e;
          pl = partitionLoop a4 e 0 (e - 1);
          low = (if highScoreFirst (snd pl ! fst pl) (snd pl ! e) then fst pl + 1 else fst pl)
      in (low, qSwap (snd pl) e low))"

lemma length_orderEnds [simp]: "length (orderEnds a) = length a"
  by (simp add: orderEnds_def Let_def)

lemma length_orderPivot [simp]: "length (orderPivot a) = length a"
  by (simp add: orderPivot_def Let_def)

lemma partitionStep_props:
  assumes "partitionStep a = (low, b)" and "2 \<le> length a"
  shows "length b = length a \<and> low < length a"
proof -
  obtain l c where pl:
    "partitionLoop (qSwap a (length a div 2) (length a - 1)) (length a - 1) 0 (length a - 1 - 1)
       = (l, c)"
    by (cases "partitionLoop (qSwap a (length a div 2) (length a - 1)) (length a - 1) 0
                 (length a - 1 - 1)")
  have lc: "length c = length a \<and> l \<le> length a - 1"
    using partitionLoop_props [OF _ pl] assms(2) by auto
  have low: "low = (if highScoreFirst (c ! l) (c ! (length a - 1)) then l + 1 else l)"
    and b: "b = qSwap c (length a - 1) low"
    using assms(1) unfolding partitionStep_def Let_def pl by auto
  have "low \<le> length a - 1"
  proof (cases "l = length a - 1")
    case True
    then show ?thesis using low by (simp add: highScoreFirst_def)
  next
    case False
    then show ?thesis using low lc by (simp split: if_splits)
  qed
  then show ?thesis using b lc assms(2) by simp
qed

function qSortHelper :: "('f::linorder) result list \<Rightarrow> 'f result list" where
  "qSortHelper a =
     (if length a < 2 then a
      else if length a = 2 then orderEnds a
      else if length a = 3 then orderPivot a
      else (case partitionStep (orderPivot a) of
              (low, a6) \<Rightarrow>
                qSortHelper (take low a6) @ [a6 ! low] @ qSortHelper (drop (low + 1) a6)))"
  by pat_completeness auto
termination
proof (relation "measure length", goal_cases)
  case 1
  show ?case by simp
next
  case (2 a low a6)
  then have "partitionStep (orderPivot a) = (low, a6)" by simp
  from partitionStep_props [OF this] 2 show ?case by simp
next
  case (3 a low a6)
  then have "partitionStep (orderPivot a) = (low, a6)" by simp
  from partitionStep_props [OF this] 3 show ?case by simp
qed

declare qSortHelper.simps [simp del]

definition qSort :: "('f::linorder) result list \<Rightarrow> 'f result list" where
  "qSort rs = (if rs \<noteq> [] then qSortHelper rs else rs)"

subsection \<open>The query side\<close>

text \<open>
  The members a query reads and writes: the variable stack, the scoring algorithm
  instance and the loop detector (pairs of a node and an offset). The tree itself is
  read only.
\<close>

record ('vs, 'sc) qstate =
  m_stack :: 'vs
  m_scoringAlg :: 'sc
  m_loopDetector :: "(nat \<times> nat) set"

text \<open>The name passed to \<^verbatim>\<open>m_stack.update\<close>: the variable's, or the null string.\<close>

definition updateName :: "'col node \<Rightarrow> string" where
  "updateName nd = (case ntype nd of VariableNode v \<Rightarrow> v | _ \<Rightarrow> [])"

text \<open>
  Modelled from the spec: \<^verbatim>\<open>Result::isNull\<close> (declared in a header that is not part of
  the sources) holds iff no output was found, so the null result of \<^verbatim>\<open>getValidOutput\<close>
  is \<open>None\<close>; a result starts with the score 0 until \<^verbatim>\<open>handleEndWord\<close> stamps it.
\<close>

definition makeResult :: "string \<Rightarrow> omapKey \<Rightarrow> ('f::zero) result" where
  "makeResult out k =
     \<lparr>routput = out, ruleId = getRuleId k, inputIdx = getInputIndex k, score = 0\<rparr>"

text \<open>
  The query functions call each other in a cycle (\<^verbatim>\<open>getResponses\<close>, \<^verbatim>\<open>scoredDFS\<close>,
  \<^verbatim>\<open>handleEndWord\<close>, \<^verbatim>\<open>getValidOutput\<close>, \<^verbatim>\<open>expandVars\<close>, \<^verbatim>\<open>getRecResponse\<close>,
  \<^verbatim>\<open>getResponse\<close>, \<^verbatim>\<open>getResponses\<close> again), and \<^verbatim>\<open>expandVars\<close> loops for as long as
  the parser finds a reference, so nothing bounds a query a priori. The cycle is cut at
  \<^verbatim>\<open>getRecResponse\<close>: the functions below it take it as the parameter \<open>R\<close>, and
  \<open>getRecResponse\<close> is defined last, by recursion on fuel. The same fuel bounds the
  iterations of each loop and the depth of the search; \<open>None\<close> means the fuel ran out
  before the C++ function returned. The state is passed in and returned.
\<close>

type_synonym ('vs, 'sc) recResponse =
  "('vs, 'sc) qstate \<Rightarrow> string \<Rightarrow> ((string \<times> ruleMatch list) \<times> ('vs, 'sc) qstate) option"

text \<open>
  \<^verbatim>\<open>expandVars(output, ok)\<close>: the \<^verbatim>\<open>while (true)\<close> loop from the current \<^verbatim>\<open>offset\<close> and
  \<^verbatim>\<open>newOutput\<close>; it returns the string and \<^verbatim>\<open>*ok\<close>. The parser's -1 is \<open>None\<close>.
\<close>

fun expandVars ::
  "nat \<Rightarrow> ('vs, 'sc) recResponse \<Rightarrow> ('vs, 'sc, 'f, 'col) env \<Rightarrow> ('vs, 'sc) qstate \<Rightarrow> string
     \<Rightarrow> int \<Rightarrow> string \<Rightarrow> ((string \<times> bool) \<times> ('vs, 'sc) qstate) option"
where
  "expandVars 0 R E st out offset newOutput = None"
| "expandVars (Suc n) R E st out offset newOutput =
     (case parseVariable E out offset of
        None \<Rightarrow> Some ((newOutput @ qmid out offset (- 1), True), st)
      | Some (i, varName, recursive) \<Rightarrow>
          if recursive then
            (case R st (vs_value E (m_stack st) varName) of
               None \<Rightarrow> None
             | Some ((varValue, matches), st') \<Rightarrow>
                 if varValue = [] then Some (([], False), st')
                 else expandVars n R E st' out (i - 1 + int (length varName) + 3)
                        (newOutput @ qmid out offset (i - 1 - offset) @ varValue))
          else expandVars n R E st out (i + int (length varName) + 2)
                 (newOutput @ qmid out offset (i - offset) @ vs_value E (m_stack st) varName))"

text \<open>\<^verbatim>\<open>getValidOutput(node)\<close>, over the entries of \<^verbatim>\<open>node->omap\<close> that are left.\<close>

fun getValidOutput ::
  "nat \<Rightarrow> ('vs, 'sc) recResponse \<Rightarrow> ('vs, 'sc, 'f::zero, 'col) env \<Rightarrow> ('vs, 'sc) qstate
     \<Rightarrow> (omapKey \<times> 'col) list \<Rightarrow> ('f result option \<times> ('vs, 'sc) qstate) option"
where
  "getValidOutput n R E st [] = Some (None, st)"
| "getValidOutput n R E st ((k, l) # entries) =
     (case nextValidOutput E l (m_stack st) of
        None \<Rightarrow> getValidOutput n R E st entries
      | Some out \<Rightarrow>
          (case expandVars n R E st out 0 [] of
             None \<Rightarrow> None
           | Some ((expOutput, ok), st') \<Rightarrow>
               if ok then Some (Some (makeResult expOutput k), st')
               else getValidOutput n R E st' entries))"

definition handleEndWord ::
  "nat \<Rightarrow> ('vs, 'sc) recResponse \<Rightarrow> ('vs, 'sc, 'f::zero, 'col) env \<Rightarrow> 'col tree
     \<Rightarrow> ('vs, 'sc) qstate \<Rightarrow> 'f result list \<Rightarrow> nat \<Rightarrow> nat
     \<Rightarrow> ('f result list \<times> ('vs, 'sc) qstate) option"
where
  "handleEndWord n R E T st results node offset =
     (if (node, offset) \<notin> m_loopDetector st then
        (case getValidOutput n R E
                (st\<lparr>m_loopDetector := insert (node, offset) (m_loopDetector st)\<rparr>)
                (omap (T ! node)) of
           None \<Rightarrow> None
         | Some (r, st') \<Rightarrow>
             Some ((case r of
                      Some r' \<Rightarrow> results @ [r'\<lparr>score := sc_currentScore E (m_scoringAlg st')\<rparr>]
                    | None \<Rightarrow> results),
                   st'\<lparr>m_loopDetector := m_loopDetector st' - {(node, offset)}\<rparr>))
      else Some (results, st))"

text \<open>
  The two updates of the members in the body of the \<^verbatim>\<open>foreach\<close> of \<^verbatim>\<open>scoredDFS\<close>:
  \<open>stackUpdate\<close> is \<^verbatim>\<open>m_stack.update(varName, offset)\<close> (with the null string for a
  node that is no variable), done for every child; \<open>captureMatch\<close> is
  \<^verbatim>\<open>m_stack.capture(words[offset].origWord, offset)\<close> followed by
  \<^verbatim>\<open>m_scoringAlg->updateScore(offset, matchWeight)\<close>, done for a child that matches.
\<close>

definition stackUpdate ::
  "('vs, 'sc, 'f, 'col) env \<Rightarrow> 'col node \<Rightarrow> nat \<Rightarrow> ('vs, 'sc) qstate \<Rightarrow> ('vs, 'sc) qstate"
where
  "stackUpdate E nd offset st =
     st\<lparr>m_stack := vs_update E (updateName nd) offset (m_stack st)\<rparr>"

definition captureMatch ::
  "('vs, 'sc, 'f, 'col) env \<Rightarrow> nlpWord \<Rightarrow> nat \<Rightarrow> 'f \<Rightarrow> ('vs, 'sc) qstate \<Rightarrow> ('vs, 'sc) qstate"
where
  "captureMatch E w offset matchWeight st =
     st\<lparr>m_stack := vs_capture E (origWord w) offset (m_stack st),
        m_scoringAlg := sc_updateScore E offset matchWeight (m_scoringAlg st)\<rparr>"

text \<open>
  \<^verbatim>\<open>scoredDFS(results, root, words, offset)\<close>, and \<open>scoredDFS_loop\<close>, its \<^verbatim>\<open>foreach\<close>
  over the children that are left.
\<close>

fun scoredDFS ::
    "nat \<Rightarrow> ('vs, 'sc) recResponse \<Rightarrow> ('vs, 'sc, 'f::{zero,linorder}, 'col) env \<Rightarrow> 'col tree
       \<Rightarrow> ('vs, 'sc) qstate \<Rightarrow> 'f result list \<Rightarrow> nat \<Rightarrow> nlpWord list \<Rightarrow> nat
       \<Rightarrow> ('f result list \<times> ('vs, 'sc) qstate) option"
  and scoredDFS_loop ::
    "nat \<Rightarrow> ('vs, 'sc) recResponse \<Rightarrow> ('vs, 'sc, 'f, 'col) env \<Rightarrow> 'col tree
       \<Rightarrow> ('vs, 'sc) qstate \<Rightarrow> 'f result list \<Rightarrow> nat list \<Rightarrow> nlpWord list \<Rightarrow> nat
       \<Rightarrow> ('f result list \<times> ('vs, 'sc) qstate) option"
where
  "scoredDFS 0 R E T st results root ws offset = None"
| "scoredDFS (Suc n) R E T st results root ws offset =
     (if offset \<ge> length ws then Some (results, st)
      else scoredDFS_loop n R E T st results (childs (T ! root)) ws offset)"
| "scoredDFS_loop 0 R E T st results cs ws offset = None"
| "scoredDFS_loop (Suc n) R E T st results [] ws offset = Some (results, st)"
| "scoredDFS_loop (Suc n) R E T st results (node # cs) ws offset =
     (let matchWeight = matchPolicy E (T ! node) (ws ! offset);
          st1 = stackUpdate E (T ! node) offset st
      in if 0 < matchWeight then
           (case (if offset + 1 < length ws
                  then scoredDFS n R E T (captureMatch E (ws ! offset) offset matchWeight st1)
                         results node ws (offset + 1)
                  else handleEndWord n R E T (captureMatch E (ws ! offset) offset matchWeight st1)
                         results node offset) of
              None \<Rightarrow> None
            | Some (results', st4) \<Rightarrow> scoredDFS_loop n R E T st4 results' cs ws offset)
         else scoredDFS_loop n R E T st1 results cs ws offset)"

text \<open>
  The results of the search after \<^verbatim>\<open>qSort\<close>, the list \<^verbatim>\<open>getResponses\<close> copies its two
  return values from.
\<close>

definition sortedResults ::
  "nat \<Rightarrow> ('vs, 'sc) recResponse \<Rightarrow> ('vs, 'sc, 'f::{zero,linorder}, 'col) env \<Rightarrow> 'col tree
     \<Rightarrow> ('vs, 'sc) qstate \<Rightarrow> string \<Rightarrow> ('f result list \<times> ('vs, 'sc) qstate) option"
where
  "sortedResults n R E T st inp =
     (case scoredDFS n R E T st [] 0 (parseUserInput E inp) 0 of
        None \<Rightarrow> None
      | Some (results, st') \<Rightarrow> Some (qSort results, st'))"

definition getResponses ::
  "nat \<Rightarrow> ('vs, 'sc) recResponse \<Rightarrow> ('vs, 'sc, 'f::{zero,linorder}, 'col) env \<Rightarrow> 'col tree
     \<Rightarrow> ('vs, 'sc) qstate \<Rightarrow> string
     \<Rightarrow> ((string list \<times> ruleMatch list) \<times> ('vs, 'sc) qstate) option"
where
  "getResponses n R E T st inp =
     (case sortedResults n R E T st inp of
        None \<Rightarrow> None
      | Some (results, st') \<Rightarrow>
          Some ((map routput results, map (\<lambda>r. (ruleId r, inputIdx r)) results), st'))"

definition getResponse ::
  "nat \<Rightarrow> ('vs, 'sc) recResponse \<Rightarrow> ('vs, 'sc, 'f::{zero,linorder}, 'col) env \<Rightarrow> 'col tree
     \<Rightarrow> ('vs, 'sc) recResponse"
where
  "getResponse n R E T st inp =
     (case getResponses n R E T st inp of
        None \<Rightarrow> None
      | Some ((responses, tmpMatches), st') \<Rightarrow>
          Some ((if responses \<noteq> [] \<and> tmpMatches \<noteq> []
                 then (hd responses, [hd tmpMatches]) else ([], [])), st'))"

text \<open>
  \<^verbatim>\<open>getRecResponse(input, matches)\<close>: push a new context, ask \<^verbatim>\<open>getResponse\<close>, pop the
  context. With no fuel left it does not return.
\<close>

primrec getRecResponse ::
  "nat \<Rightarrow> ('vs, 'sc, 'f::{zero,linorder}, 'col) env \<Rightarrow> 'col tree \<Rightarrow> ('vs, 'sc) recResponse"
where
  "getRecResponse 0 E T = (\<lambda>st inp. None)"
| "getRecResponse (Suc n) E T =
     (\<lambda>st inp.
        case getResponse n (getRecResponse n E T) E T
               (st\<lparr>m_stack := vs_new E, m_scoringAlg := sc_new E\<rparr>) inp of
          None \<Rightarrow> None
        | Some (resp, st') \<Rightarrow>
            Some (resp, st'\<lparr>m_scoringAlg := m_scoringAlg st, m_stack := m_stack st\<rparr>))"

text \<open>The public entry points, with fuel \<open>n\<close>.\<close>

definition Tree_getResponses ::
  "nat \<Rightarrow> ('vs, 'sc, 'f::{zero,linorder}, 'col) env \<Rightarrow> 'col tree \<Rightarrow> ('vs, 'sc) qstate \<Rightarrow> string
     \<Rightarrow> ((string list \<times> ruleMatch list) \<times> ('vs, 'sc) qstate) option"
where
  "Tree_getResponses n E T st inp = getResponses n (getRecResponse n E T) E T st inp"

definition Tree_getResponse ::
  "nat \<Rightarrow> ('vs, 'sc, 'f::{zero,linorder}, 'col) env \<Rightarrow> 'col tree \<Rightarrow> ('vs, 'sc) recResponse"
where
  "Tree_getResponse n E T st inp = getResponse n (getRecResponse n E T) E T st inp"

text \<open>The members of a tree that has just been constructed.\<close>

definition newState :: "('vs, 'sc, 'f, 'col) env \<Rightarrow> ('vs, 'sc) qstate" where
  "newState E = \<lparr>m_stack = vs_new E, m_scoringAlg = sc_new E, m_loopDetector = {}\<rparr>"

subsection \<open>Reference collaborators\<close>

text \<open>
  One instance of the collaborators, small enough to run, on which the theorems below are
  exercised. Each follows the contract the spec gives for the external component.

  Modelled from the spec: the lemmatizer splits at blanks and lower-cases the normalised
  form; a token is a wildcard when it is \<^verbatim>\<open>*\<close> or \<^verbatim>\<open>+\<close>, a variable when it is a name in
  square brackets, a symbol when it is one punctuation mark, a word otherwise.
\<close>

fun splitWords :: "string \<Rightarrow> string \<Rightarrow> string list" where
  "splitWords cur [] = (if cur = [] then [] else [cur])"
| "splitWords cur (c # cs) =
     (if c = CHR 0x20 then (if cur = [] then splitWords [] cs else cur # splitWords [] cs)
      else splitWords (cur @ [c]) cs)"

definition refLemmatize :: "string \<Rightarrow> nlpWord list" where
  "refLemmatize s =
     map (\<lambda>t. \<lparr>origWord = t, normWord = toLower t, wlemma = toLower t, posTag = []\<rparr>)
       (splitWords [] s)"

definition refIsWildcard :: "nlpWord \<Rightarrow> bool" where
  "refIsWildcard w = (origWord w = STAR_OP \<or> origWord w = PLUS_OP)"

definition refIsVariable :: "nlpWord \<Rightarrow> bool" where
  "refIsVariable w =
     (3 \<le> length (origWord w) \<and> hd (origWord w) = CHR 0x5B \<and> last (origWord w) = CHR 0x5D)"

definition refIsSymbol :: "nlpWord \<Rightarrow> bool" where
  "refIsSymbol w = (origWord w \<in> set [''.'', '','', ''?'', ''!''])"

definition refIsWord :: "nlpWord \<Rightarrow> bool" where
  "refIsWord w = (\<not> refIsWildcard w \<and> \<not> refIsVariable w \<and> \<not> refIsSymbol w)"

text \<open>
  Modelled from the spec: the match policy gives a word node the weight 2 on the token of
  the same normalised form and 0 on any other, and gives a wildcard or a variable node the
  same positive weight 1 on every token.
\<close>

definition refPolicy :: "'col node \<Rightarrow> nlpWord \<Rightarrow> int" where
  "refPolicy nd w =
     (case ntype nd of
        RootNode \<Rightarrow> 0
      | WordNode w' \<Rightarrow> (if normWord w' = normWord w then 2 else 0)
      | WildcardNode s m \<Rightarrow> 1
      | VariableNode v \<Rightarrow> 1)"

text \<open>
  Modelled from the spec: the scoring algorithm keeps the weight of each position up to
  the current one and sums them, so that an update at position 0 starts afresh.
\<close>

definition refUpdateScore :: "nat \<Rightarrow> int \<Rightarrow> int list \<Rightarrow> int list" where
  "refUpdateScore offset w sc = take offset sc @ [w]"

definition refCurrentScore :: "int list \<Rightarrow> int" where
  "refCurrentScore sc = sum_list sc"

text \<open>
  Modelled from the spec: the variable stack holds, per position, the name that owns it and
  the token captured there. \<^verbatim>\<open>update(name, offset)\<close> drops the positions from \<open>offset\<close>
  on and gives position \<open>offset\<close> to \<open>name\<close>; \<^verbatim>\<open>capture(word, offset)\<close> appends the word
  to the capture at \<open>offset\<close>; \<^verbatim>\<open>value(name)\<close> joins the captures of \<open>name\<close> with blanks.
\<close>

definition refUpdate :: "string \<Rightarrow> nat \<Rightarrow> (string \<times> string) list \<Rightarrow> (string \<times> string) list" where
  "refUpdate name offset s = take offset s @ [(name, [])]"

definition refCapture :: "string \<Rightarrow> nat \<Rightarrow> (string \<times> string) list \<Rightarrow> (string \<times> string) list" where
  "refCapture w offset s =
     (if offset < length s then s[offset := (fst (s ! offset), snd (s ! offset) @ w)] else s)"

fun joinWords :: "string list \<Rightarrow> string" where
  "joinWords [] = []"
| "joinWords [w] = w"
| "joinWords (w # ws) = w @ [CHR 0x20] @ joinWords ws"

definition refValue :: "(string \<times> string) list \<Rightarrow> string \<Rightarrow> string" where
  "refValue s name = joinWords (map snd (filter (\<lambda>e. fst e = name \<and> snd e \<noteq> []) s))"

text \<open>
  Modelled from the spec: a conditional output list, here with conditions that always
  hold: the first template is the next valid output.
\<close>

definition refNextValidOutput :: "string list \<Rightarrow> (string \<times> string) list \<Rightarrow> string option" where
  "refNextValidOutput l s = (case l of [] \<Rightarrow> None | t # ts \<Rightarrow> Some t)"

text \<open>
  Modelled from the spec: the variable parser finds the next \<^verbatim>\<open>[name]\<close> at or after the
  offset and returns the index of the opening bracket; the reference is recursive when the
  letter \<^verbatim>\<open>r\<close> stands right before the bracket (the form \<^verbatim>\<open>r[name]\<close>, one character
  longer, which is the extra character \<^verbatim>\<open>expandVars\<close> steps back over).
\<close>

fun findChar :: "char \<Rightarrow> string \<Rightarrow> nat \<Rightarrow> nat option" where
  "findChar c [] i = None"
| "findChar c (x # xs) i = (if x = c then Some i else findChar c xs (Suc i))"

definition refParseVariable :: "string \<Rightarrow> int \<Rightarrow> (int \<times> string \<times> bool) option" where
  "refParseVariable out offset =
     (if offset < 0 then None
      else
        (case findChar (CHR 0x5B) (drop (nat offset) out) (nat offset) of
           None \<Rightarrow> None
         | Some i \<Rightarrow>
             (case findChar (CHR 0x5D) (drop (Suc i) out) (Suc i) of
                None \<Rightarrow> None
              | Some j \<Rightarrow>
                  Some (int i, take (j - Suc i) (drop (Suc i) out),
                        nat offset < i \<and> out ! (i - 1) = CHR 0x72))))"

definition refEnv :: "((string \<times> string) list, int list, int, string list) env" where
  "refEnv =
     \<lparr>lemmatize = refLemmatize, isWord = refIsWord, isWildcard = refIsWildcard,
      isVariable = refIsVariable, isSymbol = refIsSymbol, matchPolicy = refPolicy,
      sc_new = [], sc_updateScore = refUpdateScore, sc_currentScore = refCurrentScore,
      vs_new = [], vs_update = refUpdate, vs_capture = refCapture, vs_value = refValue,
      nextValidOutput = refNextValidOutput, parseVariable = refParseVariable\<rparr>"

definition refRule :: "nat \<Rightarrow> string list \<Rightarrow> string \<Rightarrow> string list rule" where
  "refRule n inputs out = \<lparr>rule_id = of_nat n, rule_input = inputs, rule_output = [out]\<rparr>"







subsection \<open>Properties of trees and of queries\<close>

text \<open>
  What every tree built by \<^verbatim>\<open>add\<close> satisfies: the root is the base node; child and
  parent pointers point into the store, and no child pointer points at the root; a
  wildcard node is its own child (the loop edge); a child list holds at most one
  wildcard node; \<^verbatim>\<open>min\<close> is 0 or 1.
\<close>

definition treeInv :: "'col tree \<Rightarrow> bool" where
  "treeInv T \<longleftrightarrow>
     T \<noteq> [] \<and> ntype (T ! 0) = RootNode \<and>
     (\<forall>n<length T.
        (\<forall>c\<in>set (childs (T ! n)). 0 < c \<and> c < length T) \<and>
        (0 < n \<longrightarrow> (\<exists>pp<length T. parent (T ! n) = Some pp)) \<and>
        (isWildcardNode T n \<longrightarrow> n \<in> set (childs (T ! n))) \<and>
        length (filter (isWildcardNode T) (childs (T ! n))) \<le> 1 \<and>
        (\<forall>m. wcMin (T ! n) = Some m \<longrightarrow> m \<le> 1))"


text \<open>
  The zero-hop shortcut of the spec (invariant 3), as a check over the store: every child
  of a wildcard node with \<^verbatim>\<open>min = 0\<close> is also in the child list of that node's parent.
\<close>

definition zeroHopShortcut :: "'col tree \<Rightarrow> bool" where
  "zeroHopShortcut T =
     list_all
       (\<lambda>p. if wcMin (T ! p) = Some 0
            then (case parent (T ! p) of
                    None \<Rightarrow> False
                  | Some pp \<Rightarrow> list_all (\<lambda>c. c \<in> set (childs (T ! pp))) (childs (T ! p)))
            else True)
       [0..<length T]"

text \<open>
  A recursive responder that hands the members back as it found them; \<open>getRecResponse\<close>
  is one.
\<close>

definition pureR :: "('vs, 'sc) recResponse \<Rightarrow> bool" where
  "pureR R \<longleftrightarrow> (\<forall>st x r st'. R st x = Some (r, st') \<longrightarrow> st' = st)"




text \<open>
  The references the loop of \<^verbatim>\<open>expandVars\<close> is offered by the parser from an offset on
  (at most \<open>n\<close> of them): after a reference at \<open>i\<close> the loop goes on at
  \<open>i + varName.size() + 2\<close>, for the recursive form too (\<open>i - 1 + varName.size() + 3\<close>).
  \<open>expandsToEmpty\<close> says that a reference is recursive and that its re-dispatched
  response is empty; \<open>expansionFails\<close> that an entry of the output map has a valid
  output whose expansion ends with \<^verbatim>\<open>ok = false\<close>.
\<close>

fun refsFrom ::
  "nat \<Rightarrow> ('vs, 'sc, 'f, 'col) env \<Rightarrow> string \<Rightarrow> int \<Rightarrow> (int \<times> string \<times> bool) list"
where
  "refsFrom 0 E out offset = []"
| "refsFrom (Suc n) E out offset =
     (case parseVariable E out offset of
        None \<Rightarrow> []
      | Some (i, varName, recursive) \<Rightarrow>
          (i, varName, recursive) # refsFrom n E out (i + int (length varName) + 2))"

definition expandsToEmpty ::
  "('vs, 'sc) recResponse \<Rightarrow> ('vs, 'sc, 'f, 'col) env \<Rightarrow> ('vs, 'sc) qstate
     \<Rightarrow> int \<times> string \<times> bool \<Rightarrow> bool"
where
  "expandsToEmpty R E st ref =
     (case ref of
        (i, varName, recursive) \<Rightarrow>
          recursive \<and>
          (case R st (vs_value E (m_stack st) varName) of
             None \<Rightarrow> False
           | Some ((varValue, matches), st') \<Rightarrow> varValue = []))"

definition expansionFails ::
  "nat \<Rightarrow> ('vs, 'sc) recResponse \<Rightarrow> ('vs, 'sc, 'f, 'col) env \<Rightarrow> ('vs, 'sc) qstate
     \<Rightarrow> omapKey \<times> 'col \<Rightarrow> bool"
where
  "expansionFails n R E st entry =
     (case nextValidOutput E (snd entry) (m_stack st) of
        None \<Rightarrow> False
      | Some out \<Rightarrow>
          (case expandVars n R E st out 0 [] of
             None \<Rightarrow> False
           | Some ((expOutput, ok), st') \<Rightarrow> \<not> ok))"


text \<open>
  The order the spec asks of the final sort, following its words: by score, descending,
  and among equal scores the order of discovery (a stable insertion sort).
  \<open>discovered\<close> are the results in traversal order, before the sort.
\<close>

fun insertByScore :: "('f::linorder) result \<Rightarrow> 'f result list \<Rightarrow> 'f result list" where
  "insertByScore r [] = [r]"
| "insertByScore r (x # xs) =
     (if score r < score x then x # insertByScore r xs else r # x # xs)"

definition stableSortByScore :: "('f::linorder) result list \<Rightarrow> 'f result list" where
  "stableSortByScore rs = foldr insertByScore rs []"

definition discovered ::
  "nat \<Rightarrow> ('vs, 'sc, 'f::{zero,linorder}, 'col) env \<Rightarrow> 'col tree \<Rightarrow> ('vs, 'sc) qstate \<Rightarrow> string
     \<Rightarrow> 'f result list option"
where
  "discovered n E T st inp =
     map_option fst (scoredDFS n (getRecResponse n E T) E T st [] 0 (parseUserInput E inp) 0)"

subsection \<open>Example trees and states\<close>



definition helloStarTree :: "string list tree" where
  "helloStarTree = the (addRules refEnv [refRule 1 [''hello *''] ''hi''] newTree)"

definition mergedTree :: "string list tree" where
  "mergedTree =
     the (addRules refEnv
            [refRule 1 [''hello + world''] ''a'', refRule 2 [''hello * world''] ''b''] newTree)"

definition starOnlyTree :: "string list tree" where
  "starOnlyTree = the (addRules refEnv [refRule 2 [''hello * world''] ''b''] newTree)"

definition loopTree :: "string list tree" where
  "loopTree = the (addRules refEnv [refRule 6 [''[x]''] ''r[x]''] newTree)"

definition askTree :: "string list tree" where
  "askTree =
     the (addRules refEnv
            [refRule 4 [''ask [q]''] ''I heard r[q]'', refRule 5 [''hello''] ''hi there''] newTree)"

definition tieTree :: "string list tree" where
  "tieTree =
     the (addRules refEnv
            [refRule 1 [''*''] ''a'', refRule 2 [''[x]''] ''b'', refRule 3 [''hello''] ''c''] newTree)"



definition usedState :: "((string \<times> string) list, int list) qstate" where
  "usedState =
     \<lparr>m_stack = [([], ''hello''), ([], ''world'')], m_scoringAlg = [2, 1], m_loopDetector = {}\<rparr>"

definition loopState :: "((string \<times> string) list, int list) qstate" where
  "loopState = \<lparr>m_stack = [(''x'', ''foo'')], m_scoringAlg = [1], m_loopDetector = {(1, 0)}\<rparr>"

definition askState :: "((string \<times> string) list, int list) qstate" where
  "askState =
     \<lparr>m_stack = [([], ''ask''), (''q'', ''hello'')], m_scoringAlg = [2, 1],
      m_loopDetector = {(2, 1)}\<rparr>"


text \<open>
  One responder extends another when it returns the same result wherever the other
  returns; more fuel extends \<open>getRecResponse\<close>.
\<close>

definition extendsR :: "('vs, 'sc) recResponse \<Rightarrow> ('vs, 'sc) recResponse \<Rightarrow> bool" where
  "extendsR R R' \<longleftrightarrow> (\<forall>st x r. R st x = Some r \<longrightarrow> R' st x = Some r)"

text \<open>
  What the loop of \<^verbatim>\<open>expandVars\<close> needs of the variable parser: the reference it finds
  lies inside the template and ends after the offset the search started from, so that the
  next offset \<^verbatim>\<open>i + varName.size() + 2\<close> is larger and is at most the length.
\<close>

definition parserProgress :: "('vs, 'sc, 'f, 'col) env \<Rightarrow> bool" where
  "parserProgress E \<longleftrightarrow>
     (\<forall>out offset i varName recursive.
        parseVariable E out offset = Some (i, varName, recursive) \<longrightarrow>
          offset < i + int (length varName) + 2 \<and>
          i + int (length varName) + 2 \<le> int (length out))"

text \<open>A token is the original form of a word that \<^verbatim>\<open>parseUserInput\<close> returns on some input.\<close>

definition isToken :: "('vs, 'sc, 'f, 'col) env \<Rightarrow> string \<Rightarrow> bool" where
  "isToken E w \<longleftrightarrow> (\<exists>inp. w \<in> origWord ` set (parseUserInput E inp))"

text \<open>
  What the recursion needs of the variable stack and the lemmatizer together: the value
  of a variable, captured from the tokens at the positions up to \<open>offset\<close>, is parsed
  into at most \<open>offset + 1\<close> words when it is dispatched again. \<open>I s k\<close> is an invariant of
  the stack \<open>s\<close> while the search stands at position \<open>k\<close>; it holds at position 0 of every
  stack, is kept by \<^verbatim>\<open>update\<close>, and is carried to the next position by \<^verbatim>\<open>capture\<close>
  of a token.
\<close>

definition capturesBounded :: "('vs, 'sc, 'f, 'col) env \<Rightarrow> ('vs \<Rightarrow> nat \<Rightarrow> bool) \<Rightarrow> bool" where
  "capturesBounded E I \<longleftrightarrow>
     (\<forall>s. I s 0) \<and>
     (\<forall>s offset. I s (Suc offset) \<longrightarrow> I s offset) \<and>
     (\<forall>s name offset. I s offset \<longrightarrow> I (vs_update E name offset s) offset) \<and>
     (\<forall>s name w offset. I s offset \<and> isToken E w \<longrightarrow>
        I (vs_capture E w offset (vs_update E name offset s)) (Suc offset)) \<and>
     (\<forall>s name w offset name'. I s offset \<and> isToken E w \<longrightarrow>
        length (parseUserInput E
                  (vs_value E (vs_capture E w offset (vs_update E name offset s)) name'))
          \<le> Suc offset)"

text \<open>
  The invariant of the reference stack: the captures at the positions below \<open>k\<close> hold no
  blank.
\<close>

definition blankFree :: "string \<Rightarrow> bool" where
  "blankFree w = (CHR 0x20 \<notin> set w)"

definition refStackInv :: "(string \<times> string) list \<Rightarrow> nat \<Rightarrow> bool" where
  "refStackInv s k = list_all (\<lambda>e. blankFree (snd e)) (take k s)"


text \<open>
  A tree whose queries nest their expansions as deep as the input is long: the rule
  \<^verbatim>\<open>a [x]\<close> answers with the recursive reference \<^verbatim>\<open>r[x]\<close>, the rule \<^verbatim>\<open>b\<close> with
  \<^verbatim>\<open>ok\<close>. \<open>deepInput n\<close> is \<open>n\<close> times \<^verbatim>\<open>a\<close> and then \<^verbatim>\<open>b\<close>; each expansion
  dispatches the input without its first word, so the query on \<open>deepInput n\<close> enters
  \<^verbatim>\<open>getRecResponse\<close> \<open>n\<close> times, one call inside the other. \<open>pendingPairs n\<close> are the
  (node, offset) pairs at which the expansions of such a query end, and \<open>okResult\<close> is a
  result with the output \<^verbatim>\<open>ok\<close> of a given rule.
\<close>

definition wordA :: nlpWord where
  "wordA = \<lparr>origWord = ''a'', normWord = ''a'', wlemma = ''a'', posTag = []\<rparr>"

definition wordB :: nlpWord where
  "wordB = \<lparr>origWord = ''b'', normWord = ''b'', wlemma = ''b'', posTag = []\<rparr>"

definition deepTree :: "string list tree" where
  "deepTree =
     the (addRules refEnv
            [refRule 1 [''a [x]''] ''r[x]'', refRule 2 [''b''] ''ok''] newTree)"

definition deepInput :: "nat \<Rightarrow> string" where
  "deepInput n = joinWords (replicate n ''a'' @ [''b''])"

definition okResult :: "omapKey \<Rightarrow> ('f::zero) result \<Rightarrow> bool" where
  "okResult rid r \<longleftrightarrow> routput r = ''ok'' \<and> ruleId r = rid \<and> inputIdx r = 0"

definition pendingPairs :: "nat \<Rightarrow> (nat \<times> nat) set" where
  "pendingPairs n = insert (3, 0) ((\<lambda>j. (2, j)) ` {1..n})"

text \<open>
  The recursion as the spec asks for it, following its words, that implementations cap
  the expansion recursion (default 64) and treat an overrun as an expansion failure:
  \<open>cappedRecResponse\<close> is \<open>getRecResponse\<close> with a count of the nested calls that
  are left. With none left
  the call answers with the empty response, which \<^verbatim>\<open>expandVars\<close> takes as the failure of
  the expansion. It is compared with \<open>getRecResponse\<close>, the recursion of the source.
\<close>

primrec cappedRecResponse ::
  "nat \<Rightarrow> ('vs, 'sc, 'f::{zero,linorder}, 'col) env \<Rightarrow> 'col tree \<Rightarrow> nat \<Rightarrow> ('vs, 'sc) recResponse"
where
  "cappedRecResponse 0 E T = (\<lambda>left st inp. None)"
| "cappedRecResponse (Suc n) E T =
     (\<lambda>left st inp.
        if left = 0 then Some (([], []), st)
        else
          (case getResponse n (cappedRecResponse n E T (left - 1)) E T
                  (st\<lparr>m_stack := vs_new E, m_scoringAlg := sc_new E\<rparr>) inp of
             None \<Rightarrow> None
           | Some (resp, st') \<Rightarrow>
               Some (resp, st'\<lparr>m_scoringAlg := m_scoringAlg st, m_stack := m_stack st\<rparr>)))"

section \<open>The packed key\<close>

lemma mask_val: "INPUT_IDX_MASK = mask 10"
  by (simp add: INPUT_IDX_MASK_def MAX_INPUT_IDX_SIZE_def mask_eq_exp_minus_1)

lemma scast_mask_val: "(scast INPUT_IDX_MASK :: 64 word) = mask 10"
  by (simp add: INPUT_IDX_MASK_def MAX_INPUT_IDX_SIZE_def mask_eq_exp_minus_1)

lemma masked_index:
  fixes i :: "32 word"
  shows "unat (scast (i AND mask 10) :: 64 word) = unat i mod 1024"
proof -
  have lt: "uint (i AND mask 10) < 2 ^ 10" by (rule and_mask_lt_2p)
  have ge: "0 \<le> uint (i AND mask 10)" by simp
  have lt31: "uint (i AND mask 10) < 2 ^ 31" using lt by simp
  have ge31: "- (2 ^ 31) \<le> uint (i AND mask 10)"
    by (rule order_trans [of _ 0]) simp_all
  have "signed_take_bit 31 (uint (i AND mask 10)) = uint (i AND mask 10)"
    using ge31 lt31 by (rule signed_take_bit_int_eq_self)
  then have "sint (i AND mask 10) = uint (i AND mask 10)"
    by (simp add: sint_uint)
  then have "(scast (i AND mask 10) :: 64 word) = ucast (i AND mask 10)"
    by (simp add: scast_eq)
  moreover have "uint (ucast (i AND mask 10) :: 64 word) = uint (i AND mask 10)"
    by (rule uint_up_ucast) (simp add: is_up)
  ultimately have "uint (scast (i AND mask 10) :: 64 word) = uint (i AND mask 10)"
    by simp
  then have "unat (scast (i AND mask 10) :: 64 word) = unat (i AND mask 10)"
    by (simp only: unat_eq_nat_uint)
  also have "\<dots> = unat i mod 1024"
    by (simp add: take_bit_eq_mask [symmetric] unsigned_take_bit_eq take_bit_eq_mod unat_mod)
  finally show ?thesis .
qed

lemma unat_getOmapId:
  assumes "unat r < 2 ^ 54"
  shows "unat (getOmapId r i) = unat i mod 1024 + unat r * 1024"
proof -
  have ur: "unat (push_bit 10 r :: 64 word) = unat r * 1024"
    using assms by (simp add: push_bit_eq_mult unat_word_ariths)
  have "unat i mod 1024 < 1024" by simp
  then show ?thesis
    using assms ur masked_index [of i]
    by (simp add: getOmapId_def mask_val MAX_INPUT_IDX_SIZE_def unat_word_ariths)
qed

text \<open>
  C5 (amended): for every rule id below \<open>2 ^ 54\<close> and every input index \<open>i\<close> with
  \<open>0 \<le> i < 1024\<close>, the packed 64-bit key gives both parts back:
  \<open>getRuleId (getOmapId r i) = r\<close> and \<open>getInputIndex (getOmapId r i) = i\<close>.
\<close>

theorem omap_key_roundtrip:
  assumes "unat r < 2 ^ 54" "0 \<le> sint i" "sint i < 1024"
  shows "getRuleId (getOmapId r i) = r \<and> getInputIndex (getOmapId r i) = i"
proof -
  have "sint i < 2 ^ 32" using assms(3) by simp
  then have "take_bit 32 (sint i) = sint i"
    using assms(2) by (intro take_bit_int_eq_self) simp_all
  then have "uint i = sint i" using uint_sint [of i] by simp
  then have small: "unat i < 1024" using assms(2,3) by (simp only: unat_eq_nat_uint)
  note k = unat_getOmapId [OF assms(1), of i]
  have "unat (getRuleId (getOmapId r i)) = unat r"
    using k by (simp add: getRuleId_def MAX_INPUT_IDX_SIZE_def drop_bit_eq_div unat_div)
  then have A: "getRuleId (getOmapId r i) = r" by (simp add: word_unat_eq_iff)
  have "unat (getOmapId r i AND mask 10) = unat (getOmapId r i) mod 1024"
    by (simp add: take_bit_eq_mask [symmetric] unsigned_take_bit_eq take_bit_eq_mod unat_mod)
  then have "unat (getOmapId r i AND mask 10) = unat i"
    using k small by simp
  then have "unat (getInputIndex (getOmapId r i)) = unat i"
    using small by (simp add: getInputIndex_def scast_mask_val unsigned_ucast_eq take_bit_nat_eq_self)
  then have B: "getInputIndex (getOmapId r i) = i" by (simp add: word_unat_eq_iff)
  from A B show ?thesis by simp
qed

theorem omap_key_roundtrip_witness:
  "unat (7 :: 64 word) < 2 ^ 54 \<and> 0 \<le> sint (5 :: 32 word) \<and> sint (5 :: 32 word) < 1024 \<and>
   getRuleId (getOmapId 7 5) = 7 \<and> getInputIndex (getOmapId 7 5) = 5"
  using omap_key_roundtrip [of 7 5] by simp

text \<open>
  C5, as stated for every rule id, fails once the rule id needs more than the 54 bits the
  key leaves it: the shift by 10 drops the high bits.
\<close>

theorem omap_key_rule_id_overflow: "getRuleId (getOmapId (2 ^ 54) 0) \<noteq> 2 ^ 54"
  by (simp add: getRuleId_def getOmapId_def INPUT_IDX_MASK_def MAX_INPUT_IDX_SIZE_def)

section \<open>The sort\<close>

lemma scanLow_post:
  assumes "low \<le> high"
  shows "(\<forall>k. low \<le> k \<and> k < scanLow a e low high \<longrightarrow> score (a ! e) < score (a ! k)) \<and>
         (scanLow a e low high = high \<or> \<not> score (a ! e) < score (a ! scanLow a e low high))"
  using assms
proof (induction a e low high rule: scanLow.induct)
  case (1 a e low high)
  show ?case
  proof (cases "low < high \<and> highScoreFirst (a ! low) (a ! e)")
    case True
    then have eq: "scanLow a e low high = scanLow a e (low + 1) high"
      using scanLow.simps [of a e low high] by simp
    have "low + 1 \<le> high" using True by simp
    note ih = "1.IH" [OF True this]
    have "score (a ! e) < score (a ! k)" if "low \<le> k" "k < scanLow a e (low + 1) high" for k
    proof (cases "k = low")
      case True
      then show ?thesis using \<open>low < high \<and> highScoreFirst (a ! low) (a ! e)\<close>
        by (simp add: highScoreFirst_def)
    next
      case False
      then have "low + 1 \<le> k" using that(1) by simp
      then show ?thesis using ih that(2) by blast
    qed
    then show ?thesis using ih unfolding eq by blast
  next
    case False
    then have eq: "scanLow a e low high = low"
      using scanLow.simps [of a e low high] by auto
    show ?thesis using False 1(2) unfolding eq by (auto simp: highScoreFirst_def)
  qed
qed

lemma scanHigh_post:
  assumes "low \<le> high"
  shows "(\<forall>k. scanHigh a e low high < k \<and> k \<le> high \<longrightarrow> score (a ! k) < score (a ! e)) \<and>
         (scanHigh a e low high = low \<or> \<not> score (a ! scanHigh a e low high) < score (a ! e))"
  using assms
proof (induction a e low high rule: scanHigh.induct)
  case (1 a e low high)
  show ?case
  proof (cases "low < high \<and> highScoreFirst (a ! e) (a ! high)")
    case True
    then have eq: "scanHigh a e low high = scanHigh a e low (high - 1)"
      using scanHigh.simps [of a e low high] by simp
    have le: "low \<le> high - 1" using True by arith
    note ih = "1.IH" [OF True le]
    have "score (a ! k) < score (a ! e)" if "scanHigh a e low (high - 1) < k" "k \<le> high" for k
    proof (cases "k = high")
      case True
      then show ?thesis using \<open>low < high \<and> highScoreFirst (a ! e) (a ! high)\<close>
        by (simp add: highScoreFirst_def)
    next
      case False
      then have "k \<le> high - 1" using that(2) by simp
      then show ?thesis using ih that(1) by blast
    qed
    then show ?thesis using ih unfolding eq by blast
  next
    case False
    then have eq: "scanHigh a e low high = high"
      using scanHigh.simps [of a e low high] by auto
    show ?thesis using False 1(2) unfolding eq by (auto simp: highScoreFirst_def)
  qed
qed

lemma mset_qSwap: "i < length a \<Longrightarrow> j < length a \<Longrightarrow> mset (qSwap a i j) = mset a"
  by (simp add: qSwap_def mset_swap)

lemma nth_qSwap:
  "i < length a \<Longrightarrow> j < length a \<Longrightarrow> k < length a \<Longrightarrow>
     qSwap a i j ! k = (if k = i then a ! j else if k = j then a ! i else a ! k)"
  by (auto simp: qSwap_def nth_list_update)

lemma partitionLoop_post:
  assumes "partitionLoop a e low high = (l, b)"
    and "low \<le> high + 1" and "high < e" and "e < length a"
    and "\<forall>k<low. score (a ! e) \<le> score (a ! k)"
    and "\<forall>k. high < k \<and> k < e \<longrightarrow> score (a ! k) \<le> score (a ! e)"
  shows "mset b = mset a \<and> b ! e = a ! e \<and> l \<le> e \<and>
         (\<forall>k<l. score (a ! e) \<le> score (b ! k)) \<and>
         (\<forall>k. l < k \<and> k < e \<longrightarrow> score (b ! k) \<le> score (a ! e))"
  using assms
proof (induction a e low high arbitrary: l b rule: partitionLoop.induct)
  case (1 a e low high)
  show ?case
  proof (cases "low < high")
    case False
    then have "partitionLoop a e low high = (low, a)"
      using partitionLoop.simps [of a e low high] by simp
    then have lb: "l = low" "b = a" using 1(2) by simp_all
    show ?thesis using False 1(3-7) unfolding lb by auto
  next
    case True
    define l0 where "l0 = scanLow a e low high"
    define h0 where "h0 = scanHigh a e l0 high"
    have lh: "low \<le> high" using True by simp
    have b1: "low \<le> l0" "l0 \<le> high"
      using scanLow_bounds [OF lh, of a e] by (simp_all add: l0_def)
    have b2: "l0 \<le> h0" "h0 \<le> high"
      using scanHigh_bounds [OF b1(2), of a e] by (simp_all add: h0_def)
    have pl: "\<forall>k. low \<le> k \<and> k < l0 \<longrightarrow> score (a ! e) < score (a ! k)"
      and pl': "l0 = high \<or> \<not> score (a ! e) < score (a ! l0)"
      using scanLow_post [OF lh, of a e] by (simp_all add: l0_def)
    have ph: "\<forall>k. h0 < k \<and> k \<le> high \<longrightarrow> score (a ! k) < score (a ! e)"
      and ph': "h0 = l0 \<or> \<not> score (a ! h0) < score (a ! e)"
      using scanHigh_post [OF b1(2), of a e] by (simp_all add: h0_def)
    have left: "score (a ! e) \<le> score (a ! k)" if "k < l0" for k
    proof (cases "k < low")
      case True
      then show ?thesis using 1(6) by simp
    next
      case False
      then show ?thesis using pl that by (simp add: less_imp_le)
    qed
    have right: "score (a ! k) \<le> score (a ! e)" if "h0 < k" "k < e" for k
    proof (cases "k \<le> high")
      case True
      then show ?thesis using ph that by (simp add: less_imp_le)
    next
      case False
      then show ?thesis using 1(7) that by simp
    qed
    show ?thesis
    proof (cases "l0 < h0")
      case False
      then have "partitionLoop a e low high = (l0, a)"
        using True partitionLoop.simps [of a e low high] by (simp add: l0_def h0_def Let_def)
      then have lb: "l = l0" "b = a" using 1(2) by simp_all
      have "l0 = h0" using False b2 by simp
      then show ?thesis using left right b1 1(4) unfolding lb by auto
    next
      case lt: True
      let ?a' = "qSwap a l0 h0"
      have eq: "partitionLoop a e low high = partitionLoop ?a' e (l0 + 1) (h0 - 1)"
        using True lt partitionLoop.simps [of a e low high]
        by (simp add: l0_def h0_def Let_def)
      have lens: "l0 < length a" "h0 < length a" "l0 < e" "h0 < e"
        using b1 b2 1(4,5) lt by simp_all
      have nth': "?a' ! k = (if k = l0 then a ! h0 else if k = h0 then a ! l0 else a ! k)"
        if "k < length a" for k
        using nth_qSwap [OF lens(1,2) that] by simp
      have e': "?a' ! e = a ! e" using nth' [OF 1(5)] lens by simp
      have c1: "partitionLoop ?a' e (l0 + 1) (h0 - 1) = (l, b)" using eq 1(2) by simp
      have c2: "l0 + 1 \<le> h0 - 1 + 1" using lt by simp
      have c3: "h0 - 1 < e" using lens by simp
      have c4: "e < length ?a'" using 1(5) by simp
      have c5: "\<forall>k<l0 + 1. score (?a' ! e) \<le> score (?a' ! k)"
      proof (intro allI impI)
        fix k assume k: "k < l0 + 1"
        then have kl: "k < length a" using lens by simp
        show "score (?a' ! e) \<le> score (?a' ! k)"
        proof (cases "k = l0")
          case True
          then show ?thesis using ph' lt nth' [OF kl] e' by auto
        next
          case False
          then have "k < l0" using k by simp
          then show ?thesis using left [of k] nth' [OF kl] lt e' by auto
        qed
      qed
      have c6: "\<forall>k. h0 - 1 < k \<and> k < e \<longrightarrow> score (?a' ! k) \<le> score (?a' ! e)"
      proof (intro allI impI)
        fix k assume k: "h0 - 1 < k \<and> k < e"
        then have kl: "k < length a" using 1(5) by simp
        show "score (?a' ! k) \<le> score (?a' ! e)"
        proof (cases "k = h0")
          case True
          then show ?thesis using pl' lt b2 nth' [OF kl] e' by auto
        next
          case False
          then have "h0 < k" using k by arith
          then show ?thesis using right [of k] k nth' [OF kl] lt e' by auto
        qed
      qed
      have "mset b = mset ?a' \<and> b ! e = ?a' ! e \<and> l \<le> e \<and>
            (\<forall>k<l. score (?a' ! e) \<le> score (b ! k)) \<and>
            (\<forall>k. l < k \<and> k < e \<longrightarrow> score (b ! k) \<le> score (?a' ! e))"
        using "1.IH" [OF True l0_def h0_def lt c1 c2 c3 c4 c5 c6] .
      moreover have "mset ?a' = mset a"
        using mset_qSwap [OF lens(1,2)] by simp
      ultimately show ?thesis using e' by simp
    qed
  qed
qed

lemma partitionStep_post:
  assumes "partitionStep a = (low, c)" and "2 \<le> length a"
  shows "mset c = mset a \<and> low < length a \<and> length c = length a \<and>
         (\<forall>k<low. score (c ! low) \<le> score (c ! k)) \<and>
         (\<forall>k. low < k \<and> k < length a \<longrightarrow> score (c ! k) \<le> score (c ! low))"
proof -
  let ?e = "length a - 1"
  let ?a4 = "qSwap a (length a div 2) ?e"
  obtain l b where pl: "partitionLoop ?a4 ?e 0 (?e - 1) = (l, b)"
    by (cases "partitionLoop ?a4 ?e 0 (?e - 1)")
  have e: "?e < length a" "1 \<le> ?e" using assms(2) by simp_all
  have piv: "length a div 2 < length a" using assms(2) by simp
  have m4: "mset ?a4 = mset a" using mset_qSwap [OF piv e(1)] .
  have lenb: "length b = length a" and lle: "l \<le> ?e"
    using partitionLoop_props [OF _ pl] e by auto
  have post: "mset b = mset ?a4 \<and> b ! ?e = ?a4 ! ?e \<and> l \<le> ?e \<and>
         (\<forall>k<l. score (?a4 ! ?e) \<le> score (b ! k)) \<and>
         (\<forall>k. l < k \<and> k < ?e \<longrightarrow> score (b ! k) \<le> score (?a4 ! ?e))"
    by (rule partitionLoop_post [OF pl]) (use e in auto)
  define v where "v = score (b ! ?e)"
  have low: "low = (if highScoreFirst (b ! l) (b ! ?e) then l + 1 else l)"
    and c: "c = qSwap b ?e low"
    using assms(1) unfolding partitionStep_def Let_def pl by auto
  have lowe: "low \<le> ?e"
  proof (cases "l = ?e")
    case True
    then show ?thesis using low by (simp add: highScoreFirst_def)
  next
    case False
    then show ?thesis using low lle by (simp split: if_splits)
  qed
  have L: "v \<le> score (b ! k)" if "k < low" for k
  proof (cases "k < l")
    case True
    then show ?thesis using post by (simp add: v_def)
  next
    case False
    then have "k = l \<and> highScoreFirst (b ! l) (b ! ?e)"
      using that low by (auto split: if_splits)
    then show ?thesis by (simp add: v_def highScoreFirst_def less_imp_le)
  qed
  have R: "score (b ! k) \<le> v" if "low \<le> k" "k < ?e" for k
  proof (cases "l < k")
    case True
    then show ?thesis using post that by (simp add: v_def)
  next
    case False
    then have "k = l \<and> \<not> highScoreFirst (b ! l) (b ! ?e)"
      using that low by (auto split: if_splits)
    then show ?thesis by (simp add: v_def highScoreFirst_def not_less)
  qed
  have lens: "?e < length b" "low < length b" using lenb e lowe by simp_all
  have nthc: "c ! k = (if k = ?e then b ! low else if k = low then b ! ?e else b ! k)"
    if "k < length b" for k
    using nth_qSwap [OF lens that] by (simp add: c)
  have clow: "score (c ! low) = v"
    using nthc [OF lens(2)] by (simp add: v_def)
  have "score (c ! low) \<le> score (c ! k)" if "k < low" for k
  proof -
    have "k < length b" "k \<noteq> ?e" "k \<noteq> low" using that lens lowe by simp_all
    then show ?thesis using nthc [of k] L [OF that] clow by simp
  qed
  moreover have "score (c ! k) \<le> score (c ! low)" if "low < k" "k < length a" for k
  proof (cases "k = ?e")
    case True
    then have "c ! k = b ! low" using nthc [of k] that lenb by simp
    moreover have "low < ?e" using that True by simp
    ultimately show ?thesis using R [of low] clow by simp
  next
    case False
    then have "k < ?e" using that by simp
    moreover have "c ! k = b ! k" using nthc [of k] that lenb False by simp
    ultimately show ?thesis using R [of k] that clow by simp
  qed
  moreover have "mset c = mset a"
    using mset_qSwap [OF lens] post m4 by (simp add: c)
  ultimately show ?thesis using lowe e lenb by (simp add: c)
qed

lemma mset_orderEnds: "mset (orderEnds a) = mset a"
proof (cases "a = []")
  case True
  then show ?thesis by (simp add: orderEnds_def qSwap_def)
next
  case False
  then have "length a - 1 < length a" "0 < length a" by simp_all
  then show ?thesis by (simp add: orderEnds_def Let_def mset_qSwap)
qed

lemma mset_orderPivot: "mset (orderPivot a) = mset a"
proof (cases "a = []")
  case True
  then show ?thesis by (simp add: orderPivot_def orderEnds_def qSwap_def)
next
  case False
  then have "length a - 1 < length a" "0 < length a" "length a div 2 < length a" by simp_all
  then show ?thesis by (simp add: orderPivot_def Let_def mset_qSwap mset_orderEnds)
qed

lemma sorted_orderEnds:
  "length a = 2 \<Longrightarrow> sorted_wrt (\<lambda>x y. score y \<le> score x) (orderEnds a)"
proof -
  assume "length a = 2"
  then obtain x y where "a = [x, y]"
    by (cases a; cases "tl a") auto
  then show ?thesis
    by (auto simp: orderEnds_def qSwap_def highScoreFirst_def)
qed

lemma sorted_orderPivot:
  "length a = 3 \<Longrightarrow> sorted_wrt (\<lambda>x y. score y \<le> score x) (orderPivot a)"
proof -
  assume "length a = 3"
  then obtain x y z where "a = [x, y, z]"
    by (cases a; cases "tl a"; cases "tl (tl a)") auto
  then show ?thesis
    by (auto simp: orderPivot_def orderEnds_def qSwap_def highScoreFirst_def Let_def)
qed

lemma qSortHelper_sorts:
  "sorted_wrt (\<lambda>x y. score y \<le> score x) (qSortHelper a) \<and> mset (qSortHelper a) = mset a"
proof (induction a rule: qSortHelper.induct)
  case (1 a)
  consider "length a < 2" | "length a = 2" | "length a = 3" | "4 \<le> length a" by arith
  then show ?case
  proof cases
    case 1
    then have "qSortHelper a = a" using qSortHelper.simps [of a] by simp
    moreover have "sorted_wrt (\<lambda>x y. score y \<le> score x) a"
      using 1 by (cases a; cases "tl a") auto
    ultimately show ?thesis by simp
  next
    case 2
    then have "qSortHelper a = orderEnds a" using qSortHelper.simps [of a] by simp
    then show ?thesis using 2 sorted_orderEnds [of a] mset_orderEnds [of a] by simp
  next
    case 3
    then have "qSortHelper a = orderPivot a" using qSortHelper.simps [of a] by simp
    then show ?thesis using 3 sorted_orderPivot [of a] mset_orderPivot [of a] by simp
  next
    case 4
    obtain low c where ps: "partitionStep (orderPivot a) = (low, c)"
      by (cases "partitionStep (orderPivot a)")
    have eq: "qSortHelper a =
        qSortHelper (take low c) @ [c ! low] @ qSortHelper (drop (low + 1) c)"
      using 4 ps qSortHelper.simps [of a] by simp
    have n2: "\<not> length a < 2" "length a \<noteq> 2" "length a \<noteq> 3" using 4 by simp_all
    have psym: "(low, c) = partitionStep (orderPivot a)" using ps by simp
    note ihL = "1.IH"(1) [OF n2 psym]
    note ihR = "1.IH"(2) [OF n2 psym]
    have post: "mset c = mset (orderPivot a)" "low < length a" "length c = length a"
      "\<forall>k<low. score (c ! low) \<le> score (c ! k)"
      "\<forall>k. low < k \<and> k < length a \<longrightarrow> score (c ! k) \<le> score (c ! low)"
      using partitionStep_post [OF ps] 4 by simp_all
    have setL: "set (qSortHelper (take low c)) = set (take low c)"
      using ihL by (metis set_mset_mset)
    have setR: "set (qSortHelper (drop (low + 1) c)) = set (drop (low + 1) c)"
      using ihR by (metis set_mset_mset)
    have L: "score (c ! low) \<le> score x" if "x \<in> set (take low c)" for x
      using that post by (auto simp: in_set_conv_nth)
    have R: "score y \<le> score (c ! low)" if "y \<in> set (drop (low + 1) c)" for y
      using that post by (auto simp: in_set_conv_nth)
    have "sorted_wrt (\<lambda>x y. score y \<le> score x) (qSortHelper a)"
      unfolding eq using ihL ihR L R setL setR
      by (auto simp: sorted_wrt_append intro: order_trans)
    moreover have "mset (qSortHelper a) = mset a"
    proof -
      have "c = take low c @ c ! low # drop (Suc low) c"
        using post by (intro id_take_nth_drop) simp
      then have "mset c = mset (take low c) + {#c ! low#} + mset (drop (low + 1) c)"
        by (metis Suc_eq_plus1 mset.simps(2) mset_append add_mset_add_single union_assoc union_commute)
      then show ?thesis unfolding eq using ihL ihR post mset_orderPivot [of a] by simp
    qed
    ultimately show ?thesis by simp
  qed
qed

section \<open>The tree builder\<close>

lemma length_appendChild [simp]: "length (appendChild p c T) = length T"
  by (simp add: appendChild_def)

lemma nth_appendChild:
  "n < length T \<Longrightarrow>
     appendChild p c T ! n = (if n = p then (T ! n)\<lparr>childs := childs (T ! n) @ [c]\<rparr> else T ! n)"
  by (simp add: appendChild_def nth_list_update)

lemma isWildcardNode_cong:
  "ntype (T' ! n) = ntype (T ! n) \<Longrightarrow> isWildcardNode T' n = isWildcardNode T n"
  by (simp add: isWildcardNode_def)

lemma wcMin_wild: "wcMin (T ! n) = Some m \<Longrightarrow> isWildcardNode T n"
  by (simp add: wcMin_def isWildcardNode_def split: nodeType.splits)

lemma find_None_filter: "find P xs = None \<Longrightarrow> filter P xs = []"
  by (induction xs) (auto split: if_splits)

lemma find_Some_filter: "find P xs = Some c \<Longrightarrow> length (filter P xs) \<le> 1 \<Longrightarrow> filter P xs = [c]"
  by (induction xs) (auto split: if_splits simp: find_None_filter dest: find_None_filter)

lemma find_Some_mem: "find P xs = Some c \<Longrightarrow> c \<in> set xs \<and> P c"
  by (induction xs) (auto split: if_splits)

lemma filter_cong_wild:
  assumes "\<forall>c\<in>set cs. isWildcardNode T' c = isWildcardNode T c"
  shows "filter (isWildcardNode T') cs = filter (isWildcardNode T) cs"
  using assms by (intro filter_cong) auto

text \<open>the store after creating a node\<close>

lemma created_nodes:
  assumes "T' = (if spl then appendChild pp new else id) (appendChild p new (T @ [nd]))"
    and "new = length T" and "p < length T" and "spl \<longrightarrow> pp < length T"
  shows "length T' = Suc (length T)"
    and "T' ! new = nd"
    and "\<And>n. n < length T \<Longrightarrow> ntype (T' ! n) = ntype (T ! n) \<and> parent (T' ! n) = parent (T ! n)
            \<and> omap (T' ! n) = omap (T ! n)
            \<and> (\<exists>k. childs (T' ! n) = childs (T ! n) @ replicate k new \<and>
                    (k = (if n = p then 1 else 0) + (if spl \<and> n = pp then 1 else 0)))"
proof -
  let ?T1 = "appendChild p new (T @ [nd])"
  show "length T' = Suc (length T)" using assms by simp
  have new1: "?T1 ! new = nd" using assms by (simp add: nth_appendChild nth_append)
  show "T' ! new = nd" using assms new1 by (auto simp: nth_appendChild)
  fix n assume n: "n < length T"
  have n1: "?T1 ! n = (if n = p then (T ! n)\<lparr>childs := childs (T ! n) @ [new]\<rparr> else T ! n)"
    using n by (simp add: nth_appendChild nth_append)
  have n2: "T' ! n = (if spl \<and> n = pp then (?T1 ! n)\<lparr>childs := childs (?T1 ! n) @ [new]\<rparr> else ?T1 ! n)"
    using n assms(1) by (auto simp: nth_appendChild)
  show "ntype (T' ! n) = ntype (T ! n) \<and> parent (T' ! n) = parent (T ! n)
            \<and> omap (T' ! n) = omap (T ! n)
            \<and> (\<exists>k. childs (T' ! n) = childs (T ! n) @ replicate k new \<and>
                    (k = (if n = p then 1 else 0) + (if spl \<and> n = pp then 1 else 0)))"
    unfolding n2 n1 by auto
qed

lemma treeInv_created:
  assumes inv: "treeInv T" and p: "p < length T"
    and nw: "isWildcard E w \<longrightarrow> find (isWildcardNode T) (childs (T ! p)) = None"
    and T': "T' = (if spl then appendChild pp (length T) else id)
                    (appendChild p (length T) (T @ [makeNode E w p (length T)]))"
    and spl: "spl \<longleftrightarrow> wcMin (T ! p) = Some 0" "spl \<longrightarrow> pp < length T"
  shows "treeInv T'"
    and "isWildcard E w \<Longrightarrow> filter (isWildcardNode T') (childs (T' ! p)) = [length T]"
proof -
  let ?new = "length T"
  let ?nd = "makeNode E w p ?new"
  note cr = created_nodes [OF T' refl p spl(2)]
  have len: "length T' = Suc ?new" by (rule cr(1))
  have newnd: "T' ! ?new = ?nd" by (rule cr(2))
  have old: "ntype (T' ! n) = ntype (T ! n)" "parent (T' ! n) = parent (T ! n)"
    "\<exists>k. childs (T' ! n) = childs (T ! n) @ replicate k ?new \<and>
                    (k = (if n = p then 1 else 0) + (if spl \<and> n = pp then 1 else 0))"
    if "n < ?new" for n
    using cr(3) [OF that] by simp_all
  have wold: "isWildcardNode T' n = isWildcardNode T n" if "n < ?new" for n
    using old(1) [OF that] by (rule isWildcardNode_cong)
  have wnew: "isWildcardNode T' ?new = isWildcard E w"
    by (simp add: isWildcardNode_def newnd makeNode_def)
  have Tne: "T \<noteq> []" "0 < ?new" using inv by (simp_all add: treeInv_def)
  have invn: "(\<forall>c\<in>set (childs (T ! n)). 0 < c \<and> c < length T)"
      "0 < n \<longrightarrow> (\<exists>pp<length T. parent (T ! n) = Some pp)"
      "isWildcardNode T n \<longrightarrow> n \<in> set (childs (T ! n))"
      "length (filter (isWildcardNode T) (childs (T ! n))) \<le> 1"
      "\<forall>m. wcMin (T ! n) = Some m \<longrightarrow> m \<le> 1"
    if "n < ?new" for n
    using inv that by (simp_all add: treeInv_def)
  have nospl: "\<not> spl" if "isWildcard E w"
  proof
    assume "spl"
    then have "isWildcardNode T p" using spl(1) wcMin_wild by blast
    then have "p \<in> set (childs (T ! p))" using invn(3) [OF p] by simp
    then have "find (isWildcardNode T) (childs (T ! p)) \<noteq> None"
      using \<open>isWildcardNode T p\<close> by (auto simp: find_None_iff)
    then show False using nw that by simp
  qed
  have filt_old: "filter (isWildcardNode T') (childs (T ! n)) = filter (isWildcardNode T) (childs (T ! n))"
    if "n < ?new" for n
    using invn(1) [OF that] wold by (intro filter_cong_wild) auto
  have filt: "filter (isWildcardNode T') (childs (T' ! n)) =
        filter (isWildcardNode T) (childs (T ! n)) @
          (if isWildcard E w \<and> n = p then [?new] else [])"
    if n: "n < ?new" for n
  proof -
    obtain k where k: "childs (T' ! n) = childs (T ! n) @ replicate k ?new"
      "k = (if n = p then 1 else 0) + (if spl \<and> n = pp then 1 else 0)"
      using old(3) [OF n] by blast
    show ?thesis
    proof (cases "isWildcard E w")
      case True
      then have "k = (if n = p then 1 else 0)" using k(2) nospl by simp
      then show ?thesis using True k(1) wnew filt_old [OF n] by auto
    next
      case False
      then show ?thesis using k(1) wnew filt_old [OF n] by auto
    qed
  qed
  show "filter (isWildcardNode T') (childs (T' ! p)) = [length T]" if "isWildcard E w"
    using filt [OF p] that nw find_None_filter by fastforce
  have chnew: "childs ?nd = [?new] \<or> childs ?nd = []"
    "isWildcard E w \<longrightarrow> childs ?nd = [?new]"
    "parent ?nd = Some p" "\<forall>m. wcMin ?nd = Some m \<longrightarrow> m \<le> 1"
    by (auto simp: makeNode_def wcMin_def wildcardMin_def)
  show "treeInv T'"
    unfolding treeInv_def
  proof (intro conjI allI impI)
    show "T' \<noteq> []" using len by auto
    show "ntype (T' ! 0) = RootNode" using old(1) [OF Tne(2)] inv by (simp add: treeInv_def)
  next
    fix n assume n: "n < length T'"
    show "\<forall>c\<in>set (childs (T' ! n)). 0 < c \<and> c < length T'"
    proof (cases "n < ?new")
      case True
      then show ?thesis using old(3) [OF True] invn(1) [OF True] len Tne by auto
    next
      case False
      then have "n = ?new" using n len by simp
      then show ?thesis using newnd chnew(1) len Tne by auto
    qed
  next
    fix n assume n: "n < length T'" "0 < n"
    show "\<exists>pp<length T'. parent (T' ! n) = Some pp"
    proof (cases "n < ?new")
      case True
      then show ?thesis using old(2) [OF True] invn(2) [OF True] len n(2) by auto
    next
      case False
      then have "n = ?new" using n len by simp
      then show ?thesis using newnd chnew(3) len p by auto
    qed
  next
    fix n assume n: "n < length T'" "isWildcardNode T' n"
    show "n \<in> set (childs (T' ! n))"
    proof (cases "n < ?new")
      case True
      then show ?thesis using old(3) [OF True] invn(3) [OF True] wold [OF True] n(2) by auto
    next
      case False
      then have "n = ?new" using n len by simp
      then show ?thesis using newnd chnew(2) wnew n(2) by auto
    qed
  next
    fix n assume n: "n < length T'"
    show "length (filter (isWildcardNode T') (childs (T' ! n))) \<le> 1"
    proof (cases "n < ?new")
      case True
      show ?thesis
      proof (cases "isWildcard E w \<and> n = p")
        case True
        then show ?thesis using filt [OF p] nw find_None_filter by fastforce
      next
        case False
        then show ?thesis using filt [OF \<open>n < ?new\<close>] invn(4) [OF \<open>n < ?new\<close>] by auto
      qed
    next
      case False
      then have "n = ?new" using n len by simp
      then show ?thesis using newnd chnew(1) by auto
    qed
  next
    fix n m assume n: "n < length T'" "wcMin (T' ! n) = Some m"
    show "m \<le> 1"
    proof (cases "n < ?new")
      case True
      then have "wcMin (T' ! n) = wcMin (T ! n)" using old(1) [OF True] by (simp add: wcMin_def)
      then show ?thesis using invn(5) [OF True] n(2) by simp
    next
      case False
      then have "n = ?new" using n len by simp
      then show ?thesis using newnd chnew(4) n(2) by auto
    qed
  qed
qed

lemma treeInv_setMin:
  assumes inv: "treeInv T" and c: "c < length T" and w: "isWildcardNode T c"
  shows "treeInv (T[c := setMin 0 (T ! c)])"
    and "\<And>n. isWildcardNode (T[c := setMin 0 (T ! c)]) n = isWildcardNode T n"
    and "\<And>n. childs (T[c := setMin 0 (T ! c)] ! n) = childs (T ! n)"
    and "wcMin (T[c := setMin 0 (T ! c)] ! c) = Some 0"
proof -
  let ?T' = "T[c := setMin 0 (T ! c)]"
  obtain s m where nt: "ntype (T ! c) = WildcardNode s m"
    using w by (auto simp: isWildcardNode_def split: nodeType.splits)
  have sm: "setMin 0 (T ! c) = (T ! c)\<lparr>ntype := WildcardNode s 0\<rparr>"
    by (simp add: setMin_def nt)
  have nth: "?T' ! n = (if n = c then (T ! c)\<lparr>ntype := WildcardNode s 0\<rparr> else T ! n)" for n
    using c by (cases "n = c") (simp_all add: sm)
  show wc: "isWildcardNode ?T' n = isWildcardNode T n" for n
    using nt by (simp add: isWildcardNode_def nth)
  show ch: "childs (?T' ! n) = childs (T ! n)" for n
    by (simp add: nth)
  have pa: "parent (?T' ! n) = parent (T ! n)" for n
    by (simp add: nth)
  show "wcMin (?T' ! c) = Some 0" by (simp add: nth wcMin_def)
  have mins: "wcMin (?T' ! n) = Some k \<Longrightarrow> k \<le> 1" if "n < length T" for n k
    using inv that by (cases "n = c") (auto simp: nth wcMin_def treeInv_def)
  have wc': "isWildcardNode ?T' = isWildcardNode T" using wc by (intro ext)
  have "c \<noteq> 0"
  proof
    assume "c = 0"
    then show False using inv nt by (simp add: treeInv_def)
  qed
  then have root: "ntype (?T' ! 0) = RootNode" using inv by (simp add: nth treeInv_def)
  show "treeInv ?T'"
    unfolding treeInv_def wc' ch pa
    using inv root mins by (auto simp: treeInv_def)
qed

lemma addNode_treeInv:
  assumes inv: "treeInv T" and p: "p < length T"
  shows "\<exists>c T'. addNode E w p T = Some (c, T') \<and> treeInv T' \<and> 0 < c \<and> c < length T'
           \<and> length T \<le> length T'
           \<and> (isWildcard E w \<and> \<not> isWord E w \<longrightarrow>
                filter (isWildcardNode T') (childs (T' ! p)) = [c]
                \<and> (origWord w = STAR_OP \<longrightarrow> wcMin (T' ! c) = Some 0))"
proof -
  have invp: "\<forall>c\<in>set (childs (T ! p)). 0 < c \<and> c < length T"
    "length (filter (isWildcardNode T) (childs (T ! p))) \<le> 1"
    using inv p by (simp_all add: treeInv_def)
  show ?thesis
  proof (cases "isWord E w \<and> find (isWordNodeOf T w) (childs (T ! p)) \<noteq> None")
    case True
    then obtain c where c: "find (isWordNodeOf T w) (childs (T ! p)) = Some c" by auto
    then have "addNode E w p T = Some (c, T)" using True by (simp add: addNode_def)
    moreover have "c \<in> set (childs (T ! p))" using find_Some_mem [OF c] by simp
    ultimately show ?thesis using inv invp(1) True by auto
  next
    case nword: False
    then have w0: "(if isWord E w then find (isWordNodeOf T w) (childs (T ! p)) else None) = None"
      by auto
    show ?thesis
    proof (cases "isWildcard E w \<and> find (isWildcardNode T) (childs (T ! p)) \<noteq> None")
      case True
      then obtain c where c: "find (isWildcardNode T) (childs (T ! p)) = Some c" by auto
      have cm: "c \<in> set (childs (T ! p))" "isWildcardNode T c" using find_Some_mem [OF c] by simp_all
      then have cl: "0 < c" "c < length T" using invp(1) by auto
      have f1: "filter (isWildcardNode T) (childs (T ! p)) = [c]"
        using find_Some_filter [OF c invp(2)] .
      obtain s m where nt: "ntype (T ! c) = WildcardNode s m"
        using cm(2) by (auto simp: isWildcardNode_def split: nodeType.splits)
      have m1: "m \<le> 1" using inv cl nt by (auto simp: treeInv_def wcMin_def)
      show ?thesis
      proof (cases "origWord w = STAR_OP \<and> wcMin (T ! c) = Some 1")
        case lower: True
        let ?T' = "T[c := setMin 0 (T ! c)]"
        have r: "addNode E w p T = Some (c, ?T')"
          using True c w0 lower by (simp add: addNode_def)
        note sm = treeInv_setMin [OF inv cl(2) cm(2)]
        have "isWildcardNode ?T' = isWildcardNode T" using sm(2) by (intro ext)
        then have "filter (isWildcardNode ?T') (childs (?T' ! p)) = [c]"
          using f1 sm(3) by simp
        then show ?thesis using r sm(1,4) cl by auto
      next
        case False
        then have r: "addNode E w p T = Some (c, T)"
          using True c w0 by (auto simp add: addNode_def)
        have "origWord w = STAR_OP \<longrightarrow> wcMin (T ! c) = Some 0"
          using False m1 nt by (auto simp: wcMin_def)
        then show ?thesis using r inv f1 cl by auto
      qed
    next
      case nwild: False
      then have w1: "(if isWildcard E w then find (isWildcardNode T) (childs (T ! p)) else None) = None"
        by auto
      have nw: "isWildcard E w \<longrightarrow> find (isWildcardNode T) (childs (T ! p)) = None"
        using nwild by auto
      let ?new = "length T"
      let ?T1 = "appendChild p ?new (T @ [makeNode E w p ?new])"
      have T1p: "wcMin (?T1 ! p) = wcMin (T ! p)" "parent (?T1 ! p) = parent (T ! p)"
        using p by (simp_all add: nth_appendChild nth_append wcMin_def)
      show ?thesis
      proof (cases "wcMin (T ! p) = Some 0")
        case True
        then have "isWildcardNode T p" by (rule wcMin_wild)
        then have "0 < p" using inv by (cases "p = 0") (auto simp: treeInv_def isWildcardNode_def)
        then obtain pp where pp: "pp < length T" "parent (T ! p) = Some pp"
          using inv p by (auto simp: treeInv_def)
        let ?T' = "appendChild pp ?new ?T1"
        have r: "addNode E w p T = Some (?new, ?T')"
          using w0 w1 True T1p pp by (simp add: addNode_def Let_def)
        have T': "?T' = (if True then appendChild pp (length T) else id) ?T1" by simp
        note t = treeInv_created [OF inv p nw T']
        have "treeInv ?T'" using t(1) True pp by simp
        moreover have "isWildcard E w \<longrightarrow> filter (isWildcardNode ?T') (childs (?T' ! p)) = [?new]"
          using t(2) True pp by simp
        moreover have nn: "?T' ! ?new = makeNode E w p ?new"
          using created_nodes(2) [OF T' refl p] pp by simp
        have "isWildcard E w \<longrightarrow> origWord w = STAR_OP \<longrightarrow> wcMin (?T' ! ?new) = Some 0"
          unfolding nn by (simp add: makeNode_def wcMin_def wildcardMin_def)
        moreover have "0 < ?new" using inv by (simp add: treeInv_def)
        ultimately show ?thesis using r by simp
      next
        case False
        have r: "addNode E w p T = Some (?new, ?T1)"
          using w0 w1 False T1p by (simp add: addNode_def Let_def)
        have T': "?T1 = (if False then appendChild 0 (length T) else id) ?T1" by simp
        note t = treeInv_created [OF inv p nw T']
        have "treeInv ?T1" using t(1) False by simp
        moreover have "isWildcard E w \<longrightarrow> filter (isWildcardNode ?T1) (childs (?T1 ! p)) = [?new]"
          using t(2) False by simp
        moreover have "isWildcard E w \<longrightarrow> origWord w = STAR_OP \<longrightarrow> wcMin (?T1 ! ?new) = Some 0"
          using p by (simp add: nth_appendChild nth_append makeNode_def wcMin_def wildcardMin_def)
        moreover have "0 < ?new" using inv by (simp add: treeInv_def)
        ultimately show ?thesis using r by simp
      qed
    qed
  qed
qed

lemma addWords_treeInv:
  assumes "treeInv T" and "cur < length T"
  shows "\<exists>c T'. addWords E ws cur T = Some (c, T') \<and> treeInv T' \<and> c < length T'
           \<and> (ws \<noteq> [] \<longrightarrow> 0 < c)"
  using assms
proof (induction ws arbitrary: cur T)
  case Nil
  then show ?case by simp
next
  case (Cons w ws)
  obtain c T1 where a: "addNode E w cur T = Some (c, T1)" "treeInv T1" "0 < c" "c < length T1"
    using addNode_treeInv [OF Cons.prems, of E w] by blast
  obtain c' T' where b: "addWords E ws c T1 = Some (c', T')" "treeInv T'" "c' < length T'"
    "ws \<noteq> [] \<longrightarrow> 0 < c'"
    using Cons.IH [OF a(2,4)] by blast
  have "0 < c'" using a(3) b(1,4) by (cases ws) auto
  then show ?case using a(1) b by simp
qed

lemma treeInv_omap_update:
  assumes "treeInv T"
  shows "treeInv (T[n := (T ! n)\<lparr>omap := m\<rparr>])"
proof (cases "n < length T")
  case False
  then show ?thesis using assms by (simp add: list_update_beyond not_less)
next
  case True
  let ?T' = "T[n := (T ! n)\<lparr>omap := m\<rparr>]"
  have nth: "?T' ! k = (if k = n then (T ! n)\<lparr>omap := m\<rparr> else T ! k)" for k
    using True by (cases "k = n") simp_all
  have a: "ntype (?T' ! k) = ntype (T ! k)" "childs (?T' ! k) = childs (T ! k)"
    "parent (?T' ! k) = parent (T ! k)" "wcMin (?T' ! k) = wcMin (T ! k)" for k
    by (simp_all add: nth wcMin_def)
  have w: "isWildcardNode ?T' = isWildcardNode T"
    by (intro ext) (simp add: isWildcardNode_def a)
  show ?thesis using assms unfolding treeInv_def w a by simp
qed

lemma addNodeOutput_treeInv: "treeInv T \<Longrightarrow> treeInv (addNodeOutput r ons T)"
  by (induction r ons T rule: addNodeOutput.induct) (simp_all add: treeInv_omap_update)

lemma addInputs_treeInv:
  assumes "treeInv T"
  shows "\<exists>ons' T'. addInputs E inps i ons T = Some (ons', T') \<and> treeInv T'"
  using assms
proof (induction inps arbitrary: i ons T)
  case Nil
  then show ?case by simp
next
  case (Cons inp rest)
  show ?case
  proof (cases "parseRuleInput E inp = []")
    case True
    then show ?thesis using Cons.IH [OF Cons.prems] by simp
  next
    case False
    have root: "0 < length T" using Cons.prems by (simp add: treeInv_def)
    obtain cur T' where a: "addWords E (parseRuleInput E inp) 0 T = Some (cur, T')"
      "treeInv T'" "cur < length T'" "0 < cur"
      using addWords_treeInv [OF Cons.prems root, of E "parseRuleInput E inp"] False by blast
    obtain pp where pp: "parent (T' ! cur) = Some pp"
      using a(2-4) by (auto simp: treeInv_def)
    show ?thesis
      using False a(1) pp Cons.IH [OF a(2)] by (simp add: Let_def)
  qed
qed

lemma add_treeInv:
  assumes "treeInv T"
  shows "\<exists>T'. add E r T = Some T' \<and> treeInv T'"
proof -
  obtain ons T1 where "addInputs E (rule_input r) 0 [] T = Some (ons, T1)" "treeInv T1"
    using addInputs_treeInv [OF assms] by blast
  then show ?thesis by (simp add: add_def addNodeOutput_treeInv)
qed

lemma addRules_treeInv:
  assumes "treeInv T"
  shows "\<exists>T'. addRules E rs T = Some T' \<and> treeInv T'"
  using assms
proof (induction rs arbitrary: T)
  case Nil
  then show ?case by simp
next
  case (Cons r rs)
  obtain T1 where "add E r T = Some T1" "treeInv T1"
    using add_treeInv [OF Cons.prems] by blast
  then show ?case using Cons.IH [of T1] by simp
qed

lemma treeInv_newTree: "treeInv newTree"
  by (simp add: treeInv_def newTree_def rootNode_def isWildcardNode_def wcMin_def)





text \<open>
  C3 at two rules: \<^verbatim>\<open>hello + world\<close> and then \<^verbatim>\<open>hello * world\<close>. The second rule
  lowers \<^verbatim>\<open>min\<close> of the wildcard node to 0, but the child \<^verbatim>\<open>world\<close> the node already
  had is not spliced into the child list of the node's parent: the shortcut does not
  hold in the tree, and \<^verbatim>\<open>hello world\<close> finds no rule, while the second rule alone
  answers it.
\<close>

theorem zero_hop_shortcut_missed_on_merge:
  "map_option zeroHopShortcut
     (addRules refEnv
        [refRule 1 [''hello + world''] ''a'', refRule 2 [''hello * world''] ''b''] newTree)
     = Some False \<and>
   map_option zeroHopShortcut
     (addRules refEnv [refRule 2 [''hello * world''] ''b''] newTree) = Some True \<and>
   map_option fst (Tree_getResponses 10 refEnv mergedTree (newState refEnv) ''hello world'')
     = Some ([], []) \<and>
   map_option fst (Tree_getResponses 10 refEnv starOnlyTree (newState refEnv) ''hello world'')
     = Some ([''b''], [(2, 0)])"
  by code_simp

section \<open>The frame of a query\<close>

lemma expandVars_pure:
  assumes "pureR R"
  shows "expandVars n R E st out off acc = Some (r, st') \<Longrightarrow> st' = st"
proof (induction n arbitrary: off acc)
  case 0
  then show ?case by simp
next
  case (Suc n)
  show ?case
  proof (cases "parseVariable E out off")
    case None
    then show ?thesis using Suc.prems by simp
  next
    case (Some t)
    obtain i nm rc where t: "t = (i, nm, rc)" by (cases t)
    show ?thesis
    proof (cases rc)
      case False
      then show ?thesis using Suc.prems Some t Suc.IH by simp
    next
      case True
      show ?thesis
      proof (cases "R st (vs_value E (m_stack st) nm)")
        case None
        then show ?thesis using Suc.prems Some t True by simp
      next
        case (Some u)
        obtain v ms st1 where u: "u = ((v, ms), st1)" by (cases u) auto
        have st1: "st1 = st" using assms Some u by (auto simp: pureR_def)
        show ?thesis
          using Suc.prems \<open>parseVariable E out off = Some t\<close> t True Some u st1 Suc.IH
          by (auto split: if_splits)
      qed
    qed
  qed
qed

lemma getValidOutput_pure:
  assumes "pureR R"
  shows "getValidOutput n R E st es = Some (r, st') \<Longrightarrow> st' = st"
proof (induction es)
  case Nil
  then show ?case by simp
next
  case (Cons e es)
  obtain k l where e: "e = (k, l)" by (cases e)
  show ?case
  proof (cases "nextValidOutput E l (m_stack st)")
    case None
    then show ?thesis using Cons e by simp
  next
    case (Some out)
    show ?thesis
    proof (cases "expandVars n R E st out 0 []")
      case None
      then show ?thesis using Cons.prems e Some by simp
    next
      case ex: (Some u)
      obtain s ok st1 where u: "u = ((s, ok), st1)" by (cases u) auto
      have "st1 = st" using expandVars_pure [OF assms] ex u by blast
      then show ?thesis using Cons e Some ex u by (auto split: if_splits)
    qed
  qed
qed

lemma handleEndWord_pure:
  assumes "pureR R"
  shows "handleEndWord n R E T st rs node off = Some (rs', st') \<Longrightarrow> st' = st"
proof -
  assume a: "handleEndWord n R E T st rs node off = Some (rs', st')"
  show ?thesis
  proof (cases "(node, off) \<in> m_loopDetector st")
    case True
    then show ?thesis using a by (simp add: handleEndWord_def)
  next
    case False
    let ?st1 = "st\<lparr>m_loopDetector := insert (node, off) (m_loopDetector st)\<rparr>"
    obtain r st2 where g: "getValidOutput n R E ?st1 (omap (T ! node)) = Some (r, st2)"
      using a False by (auto simp: handleEndWord_def split: option.splits)
    have "st2 = ?st1" using getValidOutput_pure [OF assms g] .
    then have "st' = ?st1\<lparr>m_loopDetector := m_loopDetector ?st1 - {(node, off)}\<rparr>"
      using a False g by (simp add: handleEndWord_def)
    then show ?thesis using False by simp
  qed
qed

lemma scoredDFS_detector:
  assumes "pureR R"
  shows "(scoredDFS n R E T st rs root ws off = Some (rs', st') \<longrightarrow>
            m_loopDetector st' = m_loopDetector st) \<and>
         (scoredDFS_loop n R E T st rs cs ws off = Some (rs', st') \<longrightarrow>
            m_loopDetector st' = m_loopDetector st)"
proof (induction n arbitrary: st rs root cs off rs' st')
  case 0
  then show ?case by simp
next
  case (Suc n)
  have A: "m_loopDetector st' = m_loopDetector st"
    if "scoredDFS (Suc n) R E T st rs root ws off = Some (rs', st')"
    using that Suc.IH [where st = st and rs = rs and cs = "childs (T ! root)" and off = off and rs' = rs' and st' = st'] by (auto split: if_splits)
  have B: "m_loopDetector st' = m_loopDetector st"
    if b: "scoredDFS_loop (Suc n) R E T st rs cs ws off = Some (rs', st')"
  proof (cases cs)
    case Nil
    then show ?thesis using b by simp
  next
    case (Cons node cs')
    let ?w = "matchPolicy E (T ! node) (ws ! off)"
    let ?st1 = "stackUpdate E (T ! node) off st"
    have d1: "m_loopDetector ?st1 = m_loopDetector st" by (simp add: stackUpdate_def)
    show ?thesis
    proof (cases "0 < ?w")
      case False
      then have "scoredDFS_loop n R E T ?st1 rs cs' ws off = Some (rs', st')"
        using b Cons by (simp add: Let_def)
      then have "m_loopDetector st' = m_loopDetector ?st1"
        using Suc.IH [where st = ?st1 and rs = rs and cs = cs' and off = off and rs' = rs' and st' = st'] by simp
      then show ?thesis using d1 by simp
    next
      case True
      let ?st3 = "captureMatch E (ws ! off) off ?w ?st1"
      have d3: "m_loopDetector ?st3 = m_loopDetector st" by (simp add: captureMatch_def d1)
      let ?inner = "if off + 1 < length ws then scoredDFS n R E T ?st3 rs node ws (off + 1)
                    else handleEndWord n R E T ?st3 rs node off"
      have b': "(case ?inner of None \<Rightarrow> None
                 | Some (rs1, st4) \<Rightarrow> scoredDFS_loop n R E T st4 rs1 cs' ws off) = Some (rs', st')"
        using b Cons True by (simp add: Let_def)
      then obtain rs1 st4 where i: "?inner = Some (rs1, st4)"
        and l: "scoredDFS_loop n R E T st4 rs1 cs' ws off = Some (rs', st')"
        by (cases ?inner) auto
      have "m_loopDetector st4 = m_loopDetector ?st3"
      proof (cases "off + 1 < length ws")
        case True
        then show ?thesis using i Suc.IH [where st = ?st3 and rs = rs and root = node and off = "off + 1" and rs' = rs1 and st' = st4] by simp
      next
        case False
        then have "st4 = ?st3" using i handleEndWord_pure [OF assms] by auto
        then show ?thesis by simp
      qed
      moreover have "m_loopDetector st' = m_loopDetector st4"
        using l Suc.IH [where st = st4 and rs = rs1 and cs = cs' and off = off and rs' = rs' and st' = st'] by simp
      ultimately show ?thesis using d3 by simp
    qed
  qed
  from A B show ?case by blast
qed

lemma getResponse_detector:
  assumes "pureR R" and "getResponse n R E T st inp = Some (r, st')"
  shows "m_loopDetector st' = m_loopDetector st"
proof -
  obtain rs where "scoredDFS n R E T st [] 0 (parseUserInput E inp) 0 = Some (rs, st')"
    using assms(2)
    by (auto simp: getResponse_def getResponses_def sortedResults_def split: option.splits)
  then show ?thesis using scoredDFS_detector [OF assms(1)] by blast
qed

lemma getRecResponse_pure: "pureR (getRecResponse k E T)"
proof (induction k)
  case 0
  show ?case by (simp add: pureR_def)
next
  case (Suc k)
  show ?case
    unfolding pureR_def
  proof (intro allI impI)
    fix st :: "('a, 'b) qstate" and x r st'
    assume a: "getRecResponse (Suc k) E T st x = Some (r, st')"
    let ?st1 = "st\<lparr>m_stack := vs_new E, m_scoringAlg := sc_new E\<rparr>"
    obtain st2 where g: "getResponse k (getRecResponse k E T) E T ?st1 x = Some (r, st2)"
      and s: "st' = st2\<lparr>m_scoringAlg := m_scoringAlg st, m_stack := m_stack st\<rparr>"
      using a by (auto split: option.splits)
    have "m_loopDetector st2 = m_loopDetector st"
      using getResponse_detector [OF Suc g] by simp
    then show "st' = st" using s by simp
  qed
qed






lemma expandVars_fails_iff:
  assumes "pureR R"
  shows "expandVars n R E st out off acc = Some ((s, ok), st') \<Longrightarrow>
         (ok \<longleftrightarrow> \<not> list_ex (expandsToEmpty R E st) (refsFrom n E out off)) \<and> (\<not> ok \<longrightarrow> s = [])"
proof (induction n arbitrary: off acc)
  case 0
  then show ?case by simp
next
  case (Suc n)
  show ?case
  proof (cases "parseVariable E out off")
    case None
    then show ?thesis using Suc.prems by auto
  next
    case (Some t)
    obtain i nm rc where t: "t = (i, nm, rc)" by (cases t)
    show ?thesis
    proof (cases rc)
      case False
      then have "expandVars n R E st out (i + int (length nm) + 2)
                   (acc @ qmid out off (i - off) @ vs_value E (m_stack st) nm) = Some ((s, ok), st')"
        using Suc.prems Some t by simp
      from Suc.IH [OF this] show ?thesis
        using Some t False by (simp add: expandsToEmpty_def)
    next
      case True
      show ?thesis
      proof (cases "R st (vs_value E (m_stack st) nm)")
        case None
        then show ?thesis using Suc.prems Some t True by simp
      next
        case r: (Some u)
        obtain v ms st1 where u: "u = ((v, ms), st1)" by (cases u) auto
        have st1: "st1 = st" using assms r u by (auto simp: pureR_def)
        show ?thesis
        proof (cases "v = []")
          case True
          then have "s = [] \<and> \<not> ok" using Suc.prems Some t \<open>rc\<close> r u by simp
          then show ?thesis using Some t \<open>rc\<close> r u True by (simp add: expandsToEmpty_def)
        next
          case False
          have "i - 1 + int (length nm) + 3 = i + int (length nm) + 2" by simp
          then have "expandVars n R E st out (i + int (length nm) + 2)
                   (acc @ qmid out off (i - 1 - off) @ v) = Some ((s, ok), st')"
            using Suc.prems Some t \<open>rc\<close> r u st1 False by (simp add: ac_simps)
          from Suc.IH [OF this] show ?thesis
            using Some t \<open>rc\<close> r u False by (simp add: expandsToEmpty_def)
        qed
      qed
    qed
  qed
qed

lemma getValidOutput_all_fail:
  assumes "pureR R"
  shows "list_all (expansionFails n R E st) es \<Longrightarrow> getValidOutput n R E st es = Some (None, st)"
proof (induction es)
  case Nil
  then show ?case by simp
next
  case (Cons e es)
  obtain k l where e: "e = (k, l)" by (cases e)
  obtain out s st' where a: "nextValidOutput E l (m_stack st) = Some out"
    "expandVars n R E st out 0 [] = Some ((s, False), st')"
    using Cons.prems e by (auto simp: expansionFails_def split: option.splits)
  have "st' = st" using expandVars_pure [OF assms a(2)] .
  then show ?case using Cons e a by simp
qed

lemma getValidOutput_first_success:
  assumes pure: "pureR R"
    and ok: "nextValidOutput E l (m_stack st) = Some out"
            "expandVars n R E st out 0 [] = Some ((s, True), st')"
  shows "list_all (expansionFails n R E st) pre \<Longrightarrow>
         getValidOutput n R E st (pre @ (key, l) # es) = Some (Some (makeResult s key), st)"
proof (induction pre)
  case Nil
  have "st' = st" using expandVars_pure [OF pure ok(2)] .
  then show ?case using ok by simp
next
  case (Cons e pre)
  obtain k' l' where e: "e = (k', l')" by (cases e)
  obtain out' s' st'' where a: "nextValidOutput E l' (m_stack st) = Some out'"
    "expandVars n R E st out' 0 [] = Some ((s', False), st'')"
    using Cons.prems e by (auto simp: expansionFails_def split: option.splits)
  have "st'' = st" using expandVars_pure [OF pure a(2)] .
  then show ?case using Cons e a by simp
qed

text \<open>
  C6: an expansion that returns hands the members back unchanged; it ends with
  \<^verbatim>\<open>ok = false\<close> exactly when one of the references of the template is recursive and
  expands, through \<open>getRecResponse\<close>, to the empty response, and then the string is
  empty. An entry whose expansion fails is skipped: \<^verbatim>\<open>getValidOutput\<close> goes on with the
  entries after it; when the expansion of every entry fails, \<^verbatim>\<open>getValidOutput\<close>
  returns, with the null result; and when the entries that fail are followed by an entry
  whose expansion succeeds, \<^verbatim>\<open>getValidOutput\<close> returns the result of that entry, with
  its expanded string and its key, whatever entries come after it.
\<close>

theorem expansion_failure_skips_entry:
  fixes E :: "('vs, 'sc, 'f::{zero,linorder}, 'col) env"
  shows "(expandVars n (getRecResponse k E T) E st out off acc = Some ((s, ok), st') \<longrightarrow>
           st' = st \<and> (\<not> ok \<longrightarrow> s = []) \<and>
           (\<not> ok \<longleftrightarrow>
              list_ex (expandsToEmpty (getRecResponse k E T) E st) (refsFrom n E out off))) \<and>
         (expansionFails n (getRecResponse k E T) E st (key, l) \<longrightarrow>
           getValidOutput n (getRecResponse k E T) E st ((key, l) # es)
             = getValidOutput n (getRecResponse k E T) E st es) \<and>
         (list_all (expansionFails n (getRecResponse k E T) E st) es \<longrightarrow>
           getValidOutput n (getRecResponse k E T) E st es = Some (None :: 'f result option, st)) \<and>
         (list_all (expansionFails n (getRecResponse k E T) E st) es \<and>
          nextValidOutput E lb (m_stack st) = Some outb \<and>
          expandVars n (getRecResponse k E T) E st outb 0 [] = Some ((sb, True), stb) \<longrightarrow>
           getValidOutput n (getRecResponse k E T) E st (es @ (keyb, lb) # rest)
             = Some (Some (makeResult sb keyb :: 'f result), st))"
proof -
  let ?R = "getRecResponse k E T"
  have pure: "pureR ?R" by (rule getRecResponse_pure)
  have A: "st' = st \<and> (\<not> ok \<longrightarrow> s = []) \<and>
           (\<not> ok \<longleftrightarrow> list_ex (expandsToEmpty ?R E st) (refsFrom n E out off))"
    if "expandVars n ?R E st out off acc = Some ((s, ok), st')"
    using expandVars_pure [OF pure that] expandVars_fails_iff [OF pure that] by simp
  have B: "getValidOutput n ?R E st ((key, l) # es) = getValidOutput n ?R E st es"
    if f: "expansionFails n ?R E st (key, l)"
  proof -
    obtain out s st' where a: "nextValidOutput E l (m_stack st) = Some out"
      "expandVars n ?R E st out 0 [] = Some ((s, False), st')"
      using f by (auto simp: expansionFails_def split: option.splits)
    have "st' = st" using expandVars_pure [OF pure a(2)] .
    then show ?thesis using a by simp
  qed
  have C: "getValidOutput n ?R E st (es @ (keyb, lb) # rest)
             = Some (Some (makeResult sb keyb :: 'f result), st)"
    if "list_all (expansionFails n ?R E st) es" "nextValidOutput E lb (m_stack st) = Some outb"
       "expandVars n ?R E st outb 0 [] = Some ((sb, True), stb)"
    using getValidOutput_first_success [OF pure that(2,3) that(1)] .
  show ?thesis using A B C getValidOutput_all_fail [OF pure] by blast
qed

theorem expansion_failure_skips_entry_witness:
  "expandVars 5 (getRecResponse 10 refEnv loopTree) refEnv loopState ''r[x]'' 0 []
     = Some (([], False), loopState) \<and>
   list_ex (expandsToEmpty (getRecResponse 10 refEnv loopTree) refEnv loopState)
     (refsFrom 5 refEnv ''r[x]'' 0) \<and>
   expansionFails 5 (getRecResponse 10 refEnv loopTree) refEnv loopState (6144, [''r[x]'']) \<and>
   getValidOutput 5 (getRecResponse 10 refEnv loopTree) refEnv loopState
     [(6144, [''r[x]'']), (7168, [''r[x]''])]
     = getValidOutput 5 (getRecResponse 10 refEnv loopTree) refEnv loopState
         [(7168, [''r[x]''])] \<and>
   getValidOutput 5 (getRecResponse 10 refEnv loopTree) refEnv loopState [(6144, [''r[x]''])]
     = Some (None :: int result option, loopState) \<and>
   nextValidOutput refEnv [''ok [x]''] (m_stack loopState) = Some ''ok [x]'' \<and>
   expandVars 5 (getRecResponse 10 refEnv loopTree) refEnv loopState ''ok [x]'' 0 []
     = Some ((''ok foo'', True), loopState) \<and>
   getValidOutput 5 (getRecResponse 10 refEnv loopTree) refEnv loopState
     [(6144, [''r[x]'']), (7168, [''ok [x]'']), (8192, [''never''])]
     = Some (Some (\<lparr>routput = ''ok foo'', ruleId = 7, inputIdx = 0, score = 0\<rparr> :: int result),
             loopState)"
proof -
  let ?R = "getRecResponse 10 refEnv loopTree"
  have h1: "expandVars 5 ?R refEnv loopState ''r[x]'' 0 [] = Some (([], False), loopState)"
    by code_simp
  have h2: "expansionFails 5 ?R refEnv loopState (6144, [''r[x]''])"
    by code_simp
  then have h3: "list_all (expansionFails 5 ?R refEnv loopState) [(6144, [''r[x]''])]"
    by simp
  have h4: "nextValidOutput refEnv [''ok [x]''] (m_stack loopState) = Some ''ok [x]''"
    by code_simp
  have h5: "expandVars 5 ?R refEnv loopState ''ok [x]'' 0 [] = Some ((''ok foo'', True), loopState)"
    by code_simp
  have h6: "(makeResult ''ok foo'' 7168 :: int result)
      = \<lparr>routput = ''ok foo'', ruleId = 7, inputIdx = 0, score = 0\<rparr>"
    by code_simp
  note t = expansion_failure_skips_entry
    [where n = 5 and k = 10 and E = refEnv and T = loopTree and st = loopState
       and out = "''r[x]''" and off = 0 and acc = "[]" and s = "[]" and ok = False
       and st' = loopState and key = 6144 and l = "[''r[x]'']"
       and lb = "[''ok [x]'']" and outb = "''ok [x]''" and sb = "''ok foo''" and stb = loopState
       and keyb = 7168 and rest = "[(8192, [''never''])]"]
  from t [where es = "[(7168, [''r[x]''])]"] t [where es = "[(6144, [''r[x]''])]"]
    h1 h2 h3 h4 h5 h6
  show ?thesis by simp
qed

lemma expandVars_matches_discarded:
  "expandVars n (\<lambda>s x. map_option (\<lambda>((v, m), s'). ((v, f m), s')) (R s x)) E st out off acc
     = expandVars n R E st out off acc"
proof (induction n arbitrary: st off acc)
  case 0
  show ?case by simp
next
  case (Suc n)
  show ?case
    by (auto simp: Suc split: option.splits)
qed

text \<open>
  C8: a call of \<open>getRecResponse\<close> that returns ran \<^verbatim>\<open>getResponse\<close> on a fresh variable
  stack and a fresh scorer, and hands back the caller's stack and scorer as they were.
  What it returns beside the response string is dropped: \<^verbatim>\<open>expandVars\<close> gives the same
  result whatever match list the recursive call reports, and the score \<^verbatim>\<open>handleEndWord\<close>
  stamps on a result is the current score of the caller's scorer as it was at the call.
\<close>

theorem getRecResponse_context:
  fixes E :: "('vs, 'sc, 'f::{zero,linorder}, 'col) env"
  shows "(getRecResponse k E T st inp = Some ((resp, ms), st') \<longrightarrow>
           m_stack st' = m_stack st \<and> m_scoringAlg st' = m_scoringAlg st \<and>
           (\<exists>n st2. k = Suc n \<and>
              getResponse n (getRecResponse n E T) E T
                (st\<lparr>m_stack := vs_new E, m_scoringAlg := sc_new E\<rparr>) inp = Some ((resp, ms), st2))) \<and>
         expandVars n (\<lambda>s x. map_option (\<lambda>((v, m), s'). ((v, f m), s')) (getRecResponse k E T s x))
             E st out off acc
           = expandVars n (getRecResponse k E T) E st out off acc \<and>
         (handleEndWord n (getRecResponse k E T) E T st rs node offset = Some (rs', st'') \<longrightarrow>
            rs' = rs \<or> (\<exists>r. rs' = rs @ [r] \<and> score r = sc_currentScore E (m_scoringAlg st)))"
proof -
  have A: "m_stack st' = m_stack st \<and> m_scoringAlg st' = m_scoringAlg st \<and>
           (\<exists>n st2. k = Suc n \<and>
              getResponse n (getRecResponse n E T) E T
                (st\<lparr>m_stack := vs_new E, m_scoringAlg := sc_new E\<rparr>) inp = Some ((resp, ms), st2))"
    if "getRecResponse k E T st inp = Some ((resp, ms), st')"
    using that by (cases k) (auto split: option.splits)
  have pure: "pureR (getRecResponse k E T)" by (rule getRecResponse_pure)
  have C: "rs' = rs \<or> (\<exists>r. rs' = rs @ [r] \<and> score r = sc_currentScore E (m_scoringAlg st))"
    if h: "handleEndWord n (getRecResponse k E T) E T st rs node offset = Some (rs', st'')"
  proof (cases "(node, offset) \<in> m_loopDetector st")
    case True
    then show ?thesis using h by (simp add: handleEndWord_def)
  next
    case False
    let ?st1 = "st\<lparr>m_loopDetector := insert (node, offset) (m_loopDetector st)\<rparr>"
    obtain r st2 where g: "getValidOutput n (getRecResponse k E T) E ?st1 (omap (T ! node)) = Some (r, st2)"
      using h False by (auto simp: handleEndWord_def split: option.splits)
    have "st2 = ?st1" using getValidOutput_pure [OF pure g] .
    then show ?thesis using h False g by (cases r) (auto simp: handleEndWord_def)
  qed
  show ?thesis using A C expandVars_matches_discarded by blast
qed

theorem getRecResponse_context_witness:
  "getRecResponse 10 refEnv askTree askState ''hello'' = Some ((''hi there'', [(5, 0)]), askState) \<and>
   (\<exists>n st2. 10 = Suc n \<and>
      getResponse n (getRecResponse n refEnv askTree) refEnv askTree
        (askState\<lparr>m_stack := vs_new refEnv, m_scoringAlg := sc_new refEnv\<rparr>) ''hello''
        = Some ((''hi there'', [(5, 0)]), st2)) \<and>
   handleEndWord 8 (getRecResponse 10 refEnv askTree) refEnv askTree
       (askState\<lparr>m_loopDetector := {}\<rparr>) [] 2 1
     = Some ([\<lparr>routput = ''I heard hi there'', ruleId = 4, inputIdx = 0, score = 3\<rparr>],
             askState\<lparr>m_loopDetector := {}\<rparr>) \<and>
   sc_currentScore refEnv (m_scoringAlg (askState\<lparr>m_loopDetector := {}\<rparr>)) = 3"
proof -
  have h1: "getRecResponse 10 refEnv askTree askState ''hello''
              = Some ((''hi there'', [(5, 0)]), askState)"
    by code_simp
  have h2: "handleEndWord 8 (getRecResponse 10 refEnv askTree) refEnv askTree
       (askState\<lparr>m_loopDetector := {}\<rparr>) [] 2 1
     = Some ([\<lparr>routput = ''I heard hi there'', ruleId = 4, inputIdx = 0, score = 3\<rparr>],
             askState\<lparr>m_loopDetector := {}\<rparr>)"
    by code_simp
  note t = getRecResponse_context
    [where k = 10 and E = refEnv and T = askTree and st = askState and inp = "''hello''"
       and resp = "''hi there''" and ms = "[(5, 0)]" and st' = askState]
  have h3: "sc_currentScore refEnv (m_scoringAlg (askState\<lparr>m_loopDetector := {}\<rparr>)) = 3"
    by code_simp
  from t h1 h2 h3 show ?thesis by simp
qed

text \<open>
  C9: at a plain reference whose value on the stack is empty, \<^verbatim>\<open>expandVars\<close> appends the
  text before the reference and nothing for the reference, and goes on behind it; when no
  reference follows, it ends with \<^verbatim>\<open>ok = true\<close>. Whenever \<^verbatim>\<open>expandVars\<close> ends with
  \<^verbatim>\<open>ok = false\<close>, the parser had reported a recursive reference and the recursive
  response to its value was empty.
\<close>

theorem plain_empty_reference:
  assumes "parseVariable E out off = Some (i, nm, False)"
    and "vs_value E (m_stack st) nm = []"
  shows "expandVars (Suc n) R E st out off acc =
           expandVars n R E st out (i + int (length nm) + 2) (acc @ qmid out off (i - off)) \<and>
         (parseVariable E out (i + int (length nm) + 2) = None \<longrightarrow>
            expandVars (Suc (Suc n)) R E st out off acc =
              Some ((acc @ qmid out off (i - off) @ qmid out (i + int (length nm) + 2) (- 1), True), st)) \<and>
         (expandVars m R E st out off acc = Some ((s, False), st') \<longrightarrow>
            (\<exists>off' i' nm' st0 ms. parseVariable E out off' = Some (i', nm', True) \<and>
               R st0 (vs_value E (m_stack st0) nm') = Some (([], ms), st')))"
proof -
  have gen: "expandVars m R E st out off acc = Some ((s, False), st') \<Longrightarrow>
            (\<exists>off' i' nm' st0 ms. parseVariable E out off' = Some (i', nm', True) \<and>
               R st0 (vs_value E (m_stack st0) nm') = Some (([], ms), st'))" for m st off acc
  proof (induction m arbitrary: st off acc)
    case 0
    then show ?case by simp
  next
    case (Suc m)
    show ?case
    proof (cases "parseVariable E out off")
      case None
      then show ?thesis using Suc.prems by simp
    next
      case (Some t)
      obtain i nm rc where t: "t = (i, nm, rc)" by (cases t)
      show ?thesis
      proof (cases rc)
        case False
        then show ?thesis using Suc.prems Some t Suc.IH by simp
      next
        case True
        show ?thesis
        proof (cases "R st (vs_value E (m_stack st) nm)")
          case None
          then show ?thesis using Suc.prems Some t True by simp
        next
          case r: (Some u)
          obtain v ms st1 where u: "u = ((v, ms), st1)" by (cases u) auto
          show ?thesis
          proof (cases "v = []")
            case True
            then have "st' = st1" using Suc.prems Some t \<open>rc\<close> r u by simp
            then have "parseVariable E out off = Some (i, nm, True) \<and>
                R st (vs_value E (m_stack st) nm) = Some (([], ms), st')"
              using Some t \<open>rc\<close> r u True by simp
            then show ?thesis by blast
          next
            case False
            then show ?thesis using Suc.prems Some t \<open>rc\<close> r u Suc.IH by simp
          qed
        qed
      qed
    qed
  qed
  show ?thesis using assms gen by simp
qed

theorem plain_empty_reference_witness:
  "parseVariable refEnv ''hi [x]!'' 0 = Some (3, ''x'', False) \<and>
   vs_value refEnv (m_stack (newState refEnv)) ''x'' = [] \<and>
   parseVariable refEnv ''hi [x]!'' 6 = None \<and>
   expandVars 5 (getRecResponse 0 refEnv loopTree) refEnv (newState refEnv) ''hi [x]!'' 0 []
     = Some ((''hi !'', True), newState refEnv)"
proof -
  have h1: "parseVariable refEnv ''hi [x]!'' 0 = Some (3, ''x'', False)" by code_simp
  have h2: "vs_value refEnv (m_stack (newState refEnv)) ''x'' = []" by code_simp
  have h3: "parseVariable refEnv ''hi [x]!'' 6 = None" by code_simp
  have e: "(5::nat) = Suc (Suc 3)" by simp
  have q: "qmid ''hi [x]!'' 0 3 @ qmid ''hi [x]!'' 6 (- 1) = ''hi !''" by code_simp
  from plain_empty_reference [OF h1 h2, of 3 "getRecResponse 0 refEnv loopTree" "[]"] h1 h2 h3 q
  show ?thesis unfolding e by simp
qed

text \<open>
  C10: when the user input tokenises to no word (it is empty, or all its tokens are
  symbols, which are filtered out), \<^verbatim>\<open>getResponses\<close> returns an empty response list and
  an empty match list, and leaves the members as they were.
\<close>

theorem empty_input_no_results:
  assumes "parseUserInput E inp = []"
  shows "Tree_getResponses (Suc n) E T st inp = Some (([], []), st)"
  using assms by (simp add: Tree_getResponses_def getResponses_def sortedResults_def qSort_def)


theorem empty_input_no_results_witness:
  "parseUserInput refEnv ''? !'' = [] \<and>
   Tree_getResponses (Suc 0) refEnv helloStarTree usedState ''? !'' = Some (([], []), usedState)"
proof -
  have h: "parseUserInput refEnv ''? !'' = []" by code_simp
  from empty_input_no_results [OF h] h show ?thesis by simp
qed

text \<open>
  C4 (amended): the list \<^verbatim>\<open>getResponses\<close> returns is, entry by entry, read off a list of
  results that is non-increasing in score and holds exactly the results the search
  discovered.
\<close>

theorem responses_sorted_by_score:
  assumes "Tree_getResponses n E T st inp = Some ((responses, matches), st')"
  shows "\<exists>rs found. discovered n E T st inp = Some found \<and> mset rs = mset found \<and>
           sorted_wrt (\<lambda>a b. score b \<le> score a) rs \<and>
           responses = map routput rs \<and> matches = map (\<lambda>r. (ruleId r, inputIdx r)) rs"
proof -
  obtain found where f: "scoredDFS n (getRecResponse n E T) E T st [] 0 (parseUserInput E inp) 0
      = Some (found, st')"
    and r: "responses = map routput (qSort found)"
       "matches = map (\<lambda>r. (ruleId r, inputIdx r)) (qSort found)"
    using assms
    by (auto simp: Tree_getResponses_def getResponses_def sortedResults_def split: option.splits)
  have "sorted_wrt (\<lambda>a b. score b \<le> score a) (qSort found) \<and> mset (qSort found) = mset found"
    using qSortHelper_sorts [of found] by (simp add: qSort_def)
  then show ?thesis using f r by (auto simp: discovered_def)
qed

theorem responses_sorted_by_score_witness:
  "Tree_getResponses 10 refEnv tieTree (newState refEnv) ''hello''
     = Some (([''c'', ''b'', ''a''], [(3, 0), (2, 0), (1, 0)]),
             \<lparr>m_stack = [([], ''hello'')], m_scoringAlg = [2], m_loopDetector = {}\<rparr>) \<and>
   (\<exists>rs found. discovered 10 refEnv tieTree (newState refEnv) ''hello'' = Some found \<and>
      mset rs = mset found \<and> sorted_wrt (\<lambda>a b. score b \<le> score a) rs \<and>
      [''c'', ''b'', ''a''] = map routput rs \<and>
      [(3, 0), (2, 0), (1, 0)] = map (\<lambda>r. (ruleId r, inputIdx r)) rs)"
proof -
  have h: "Tree_getResponses 10 refEnv tieTree (newState refEnv) ''hello''
     = Some (([''c'', ''b'', ''a''], [(3, 0), (2, 0), (1, 0)]),
             \<lparr>m_stack = [([], ''hello'')], m_scoringAlg = [2], m_loopDetector = {}\<rparr>)"
    by code_simp
  show ?thesis using h responses_sorted_by_score [OF h] by (rule conjI)
qed

text \<open>
  C4, as stated, asks for a stable sort. On the input \<^verbatim>\<open>hello\<close> the search discovers the
  results \<open>a\<close>, \<open>b\<close>, \<open>c\<close> with the scores 1, 1, 2; the stable order is \<open>c\<close>, \<open>a\<close>,
  \<open>b\<close>, and \<^verbatim>\<open>getResponses\<close> returns \<open>c\<close>, \<open>b\<close>, \<open>a\<close>.
\<close>

theorem final_sort_not_stable:
  "map_option (map routput) (discovered 10 refEnv tieTree (newState refEnv) ''hello'')
     = Some [''a'', ''b'', ''c''] \<and>
   map_option (map score) (discovered 10 refEnv tieTree (newState refEnv) ''hello'')
     = Some [1, 1, 2] \<and>
   map_option (map routput \<circ> stableSortByScore)
       (discovered 10 refEnv tieTree (newState refEnv) ''hello'')
     = Some [''c'', ''a'', ''b''] \<and>
   map_option (fst \<circ> fst) (Tree_getResponses 10 refEnv tieTree (newState refEnv) ''hello'')
     = Some [''c'', ''b'', ''a'']"
  by code_simp

section \<open>Termination of a query\<close>

subsection \<open>More fuel changes no result\<close>

lemma expandVars_mono:
  assumes "extendsR R R'"
  shows "n \<le> m \<Longrightarrow> expandVars n R E st out off acc = Some r \<Longrightarrow>
         expandVars m R' E st out off acc = Some r"
proof (induction n arbitrary: m st off acc)
  case 0
  then show ?case by simp
next
  case (Suc n)
  then obtain m' where m: "m = Suc m'" "n \<le> m'" by (cases m) auto
  show ?case
  proof (cases "parseVariable E out off")
    case None
    then show ?thesis using Suc.prems m by simp
  next
    case (Some t)
    obtain i nm rc where t: "t = (i, nm, rc)" by (cases t)
    show ?thesis
    proof (cases rc)
      case False
      then show ?thesis using Suc.prems(2) Some t m Suc.IH [OF m(2)] by simp
    next
      case True
      show ?thesis
      proof (cases "R st (vs_value E (m_stack st) nm)")
        case None
        then show ?thesis using Suc.prems(2) Some t True by simp
      next
        case r: (Some u)
        then have r': "R' st (vs_value E (m_stack st) nm) = Some u"
          using assms unfolding extendsR_def by blast
        obtain v ms st1 where u: "u = ((v, ms), st1)" by (cases u) auto
        show ?thesis
          using Suc.prems(2) Some t True r r' u m Suc.IH [OF m(2)]
          by (auto split: if_splits)
      qed
    qed
  qed
qed

lemma getValidOutput_mono:
  assumes "extendsR R R'" and "n \<le> m"
  shows "getValidOutput n R E st es = Some r \<Longrightarrow> getValidOutput m R' E st es = Some r"
proof (induction es arbitrary: st)
  case Nil
  then show ?case by simp
next
  case (Cons e es)
  obtain k l where e: "e = (k, l)" by (cases e)
  show ?case
  proof (cases "nextValidOutput E l (m_stack st)")
    case None
    then show ?thesis using Cons e by simp
  next
    case (Some out)
    show ?thesis
    proof (cases "expandVars n R E st out 0 []")
      case None
      then show ?thesis using Cons.prems e Some by simp
    next
      case ex: (Some u)
      obtain s ok st1 where u: "u = ((s, ok), st1)" by (cases u) auto
      have "expandVars m R' E st out 0 [] = Some ((s, ok), st1)"
        using expandVars_mono [OF assms] ex u by simp
      then show ?thesis using Cons e Some ex u by (auto split: if_splits)
    qed
  qed
qed

lemma handleEndWord_mono:
  assumes "extendsR R R'" and "n \<le> m"
  shows "handleEndWord n R E T st rs node off = Some r \<Longrightarrow>
         handleEndWord m R' E T st rs node off = Some r"
proof -
  assume a: "handleEndWord n R E T st rs node off = Some r"
  show ?thesis
  proof (cases "(node, off) \<in> m_loopDetector st")
    case True
    then show ?thesis using a by (simp add: handleEndWord_def)
  next
    case False
    let ?st1 = "st\<lparr>m_loopDetector := insert (node, off) (m_loopDetector st)\<rparr>"
    obtain g where g: "getValidOutput n R E ?st1 (omap (T ! node)) = Some g"
      using a False by (auto simp: handleEndWord_def split: option.splits)
    have "getValidOutput m R' E ?st1 (omap (T ! node)) = Some g"
      using getValidOutput_mono [OF assms g] .
    then show ?thesis using a False g by (simp add: handleEndWord_def)
  qed
qed

lemma scoredDFS_mono:
  assumes "extendsR R R'"
  shows "n \<le> m \<Longrightarrow>
         (scoredDFS n R E T st rs root ws off = Some r \<longrightarrow>
            scoredDFS m R' E T st rs root ws off = Some r) \<and>
         (scoredDFS_loop n R E T st rs cs ws off = Some r \<longrightarrow>
            scoredDFS_loop m R' E T st rs cs ws off = Some r)"
proof (induction n arbitrary: m st rs root cs off r)
  case 0
  then show ?case by simp
next
  case (Suc n)
  then obtain m' where m: "m = Suc m'" "n \<le> m'" by (cases m) auto
  note ih = Suc.IH [OF m(2)]
  have A: "scoredDFS m R' E T st rs root ws off = Some r"
    if "scoredDFS (Suc n) R E T st rs root ws off = Some r"
    using that m ih [where st = st and rs = rs and cs = "childs (T ! root)" and off = off and r = r]
    by (auto split: if_splits)
  have B: "scoredDFS_loop m R' E T st rs cs ws off = Some r"
    if b: "scoredDFS_loop (Suc n) R E T st rs cs ws off = Some r"
  proof (cases cs)
    case Nil
    then show ?thesis using b m by simp
  next
    case (Cons node cs')
    let ?w = "matchPolicy E (T ! node) (ws ! off)"
    let ?st1 = "stackUpdate E (T ! node) off st"
    show ?thesis
    proof (cases "0 < ?w")
      case False
      then have "scoredDFS_loop n R E T ?st1 rs cs' ws off = Some r"
        using b Cons by (simp add: Let_def)
      then have "scoredDFS_loop m' R' E T ?st1 rs cs' ws off = Some r"
        using ih [where st = ?st1 and rs = rs and cs = cs' and off = off and r = r] by simp
      then show ?thesis using False Cons m by (simp add: Let_def)
    next
      case True
      let ?st3 = "captureMatch E (ws ! off) off ?w ?st1"
      let ?inner = "\<lambda>n R. if off + 1 < length ws then scoredDFS n R E T ?st3 rs node ws (off + 1)
                    else handleEndWord n R E T ?st3 rs node off"
      have b': "(case ?inner n R of None \<Rightarrow> None
                 | Some (rs1, st4) \<Rightarrow> scoredDFS_loop n R E T st4 rs1 cs' ws off) = Some r"
        using b Cons True by (simp add: Let_def)
      then obtain rs1 st4 where i: "?inner n R = Some (rs1, st4)"
        and l: "scoredDFS_loop n R E T st4 rs1 cs' ws off = Some r"
        by (cases "?inner n R") auto
      have i': "?inner m' R' = Some (rs1, st4)"
      proof (cases "off + 1 < length ws")
        case True
        then show ?thesis
          using i ih [where st = ?st3 and rs = rs and root = node and off = "off + 1" and r = "(rs1, st4)"]
          by simp
      next
        case False
        then show ?thesis using i handleEndWord_mono [OF assms m(2)] by simp
      qed
      have l': "scoredDFS_loop m' R' E T st4 rs1 cs' ws off = Some r"
        using l ih [where st = st4 and rs = rs1 and cs = cs' and off = off and r = r] by simp
      show ?thesis using True Cons m i' l' by (simp add: Let_def)
    qed
  qed
  from A B show ?case by blast
qed

lemma getResponse_mono:
  assumes "extendsR R R'" and "n \<le> m" and "getResponse n R E T st inp = Some r"
  shows "getResponse m R' E T st inp = Some r"
proof -
  obtain d where d: "scoredDFS n R E T st [] 0 (parseUserInput E inp) 0 = Some d"
    using assms(3)
    by (auto simp: getResponse_def getResponses_def sortedResults_def split: option.splits)
  have "scoredDFS m R' E T st [] 0 (parseUserInput E inp) 0 = Some d"
    using scoredDFS_mono [OF assms(1,2)] d by blast
  then show ?thesis
    using assms(3) d by (simp add: getResponse_def getResponses_def sortedResults_def)
qed

lemma getRecResponse_mono: "k \<le> k' \<Longrightarrow> extendsR (getRecResponse k E T) (getRecResponse k' E T)"
proof (induction k arbitrary: k')
  case 0
  show ?case by (simp add: extendsR_def)
next
  case (Suc k)
  then obtain j where j: "k' = Suc j" "k \<le> j" by (cases k') auto
  note ih = Suc.IH [OF j(2)]
  show ?case
    unfolding extendsR_def
  proof (intro allI impI)
    fix st :: "('a, 'b) qstate" and x r
    assume a: "getRecResponse (Suc k) E T st x = Some r"
    let ?st1 = "st\<lparr>m_stack := vs_new E, m_scoringAlg := sc_new E\<rparr>"
    obtain g where g: "getResponse k (getRecResponse k E T) E T ?st1 x = Some g"
      using a by (auto split: option.splits)
    have "getResponse j (getRecResponse j E T) E T ?st1 x = Some g"
      using getResponse_mono [OF ih j(2) g] .
    then show "getRecResponse k' E T st x = Some r" using a g j by simp
  qed
qed

lemma extendsR_refl: "extendsR R R"
  by (simp add: extendsR_def)

subsection \<open>The stack invariant along the search\<close>

lemma stack_after_match:
  "m_stack (captureMatch E w off mw (stackUpdate E nd off st))
     = vs_capture E (origWord w) off (vs_update E (updateName nd) off (m_stack st))"
  by (simp add: captureMatch_def stackUpdate_def)

lemma scoredDFS_stack_inv:
  assumes pure: "pureR R" and cb: "capturesBounded E I"
    and tok: "\<forall>w\<in>set ws. isToken E (origWord w)"
  shows "(scoredDFS n R E T st rs root ws off = Some (rs', st') \<longrightarrow> I (m_stack st) off
            \<longrightarrow> I (m_stack st') off) \<and>
         (scoredDFS_loop n R E T st rs cs ws off = Some (rs', st') \<longrightarrow> off < length ws
            \<longrightarrow> I (m_stack st) off \<longrightarrow> I (m_stack st') off)"
proof (induction n arbitrary: st rs root cs off rs' st')
  case 0
  then show ?case by simp
next
  case (Suc n)
  have weak: "I s k" if "I s (Suc k)" for s k
    using cb that unfolding capturesBounded_def by blast
  have A: "I (m_stack st') off"
    if "scoredDFS (Suc n) R E T st rs root ws off = Some (rs', st')" "I (m_stack st) off"
  proof (cases "off \<ge> length ws")
    case True
    then show ?thesis using that by simp
  next
    case False
    then show ?thesis
      using that Suc.IH [where st = st and rs = rs and cs = "childs (T ! root)" and off = off
          and rs' = rs' and st' = st']
      by simp
  qed
  have B: "I (m_stack st') off"
    if b: "scoredDFS_loop (Suc n) R E T st rs cs ws off = Some (rs', st')"
      and lt: "off < length ws" and i0: "I (m_stack st) off"
  proof (cases cs)
    case Nil
    then show ?thesis using b i0 by simp
  next
    case (Cons node cs')
    let ?w = "matchPolicy E (T ! node) (ws ! off)"
    let ?st1 = "stackUpdate E (T ! node) off st"
    have i1: "I (m_stack ?st1) off"
      using cb i0 unfolding capturesBounded_def stackUpdate_def by simp
    show ?thesis
    proof (cases "0 < ?w")
      case False
      then have "scoredDFS_loop n R E T ?st1 rs cs' ws off = Some (rs', st')"
        using b Cons by (simp add: Let_def)
      then show ?thesis
        using Suc.IH [where st = ?st1 and rs = rs and cs = cs' and off = off
            and rs' = rs' and st' = st'] lt i1
        by simp
    next
      case True
      let ?st3 = "captureMatch E (ws ! off) off ?w ?st1"
      have "isToken E (origWord (ws ! off))" using tok lt by simp
      then have i3: "I (m_stack ?st3) (Suc off)"
        using cb i0 unfolding capturesBounded_def stack_after_match by blast
      let ?inner = "if off + 1 < length ws then scoredDFS n R E T ?st3 rs node ws (off + 1)
                    else handleEndWord n R E T ?st3 rs node off"
      have b': "(case ?inner of None \<Rightarrow> None
                 | Some (rs1, st4) \<Rightarrow> scoredDFS_loop n R E T st4 rs1 cs' ws off) = Some (rs', st')"
        using b Cons True by (simp add: Let_def)
      then obtain rs1 st4 where i: "?inner = Some (rs1, st4)"
        and l: "scoredDFS_loop n R E T st4 rs1 cs' ws off = Some (rs', st')"
        by (cases ?inner) auto
      have "I (m_stack st4) (Suc off)"
      proof (cases "off + 1 < length ws")
        case True
        then show ?thesis
          using i i3 Suc.IH [where st = ?st3 and rs = rs and root = node and off = "Suc off"
              and rs' = rs1 and st' = st4]
          by simp
      next
        case False
        then have "st4 = ?st3" using i handleEndWord_pure [OF pure] by auto
        then show ?thesis using i3 by simp
      qed
      then have "I (m_stack st4) off" by (rule weak)
      then show ?thesis
        using l lt Suc.IH [where st = st4 and rs = rs1 and cs = cs' and off = off
            and rs' = rs' and st' = st']
        by simp
    qed
  qed
  from A B show ?case by blast
qed

section \<open>halting\<close>

lemma getRecResponse_le:
  "k \<le> k' \<Longrightarrow> getRecResponse k E T st x = Some r \<Longrightarrow> getRecResponse k' E T st x = Some r"
  using getRecResponse_mono [of k k' E T] unfolding extendsR_def by blast

lemma expandVars_halts:
  fixes E :: "('vs, 'sc, 'f::{zero,linorder}, 'col) env"
  assumes pp: "parserProgress E"
    and rec: "\<And>nm. \<exists>k r. getRecResponse k E T st (vs_value E (m_stack st) nm) = Some r"
  shows "\<exists>n r. expandVars n (getRecResponse n E T) E st out off acc = Some r"
proof (induction "nat (int (length out) - off)" arbitrary: off acc rule: less_induct)
  case less
  show ?case
  proof (cases "parseVariable E out off")
    case None
    then have "expandVars (Suc 0) (getRecResponse (Suc 0) E T) E st out off acc
        = Some ((acc @ qmid out off (- 1), True), st)" by simp
    then show ?thesis by blast
  next
    case (Some t)
    obtain i nm rc where t: "t = (i, nm, rc)" by (cases t)
    let ?off' = "i + int (length nm) + 2"
    have prog: "off < ?off'" "?off' \<le> int (length out)"
      using pp Some t unfolding parserProgress_def by blast+
    then have dec: "nat (int (length out) - ?off') < nat (int (length out) - off)" by simp
    show ?thesis
    proof (cases rc)
      case False
      obtain n r where n: "expandVars n (getRecResponse n E T) E st out ?off'
          (acc @ qmid out off (i - off) @ vs_value E (m_stack st) nm) = Some r"
        using less [OF dec] by blast
      have "expandVars n (getRecResponse (Suc n) E T) E st out ?off'
          (acc @ qmid out off (i - off) @ vs_value E (m_stack st) nm) = Some r"
        using expandVars_mono [OF getRecResponse_mono _ n, of "Suc n" n] by simp
      then have "expandVars (Suc n) (getRecResponse (Suc n) E T) E st out off acc = Some r"
        using Some t False by simp
      then show ?thesis by blast
    next
      case True
      obtain k u where k: "getRecResponse k E T st (vs_value E (m_stack st) nm) = Some u"
        using rec by blast
      obtain v ms st1 where u: "u = ((v, ms), st1)" by (cases u) auto
      have st1: "st1 = st" using getRecResponse_pure [of k E T] k u by (auto simp: pureR_def)
      show ?thesis
      proof (cases "v = []")
        case True
        have "getRecResponse (Suc k) E T st (vs_value E (m_stack st) nm) = Some u"
          using getRecResponse_le [OF _ k, of "Suc k"] by simp
        then have "expandVars (Suc k) (getRecResponse (Suc k) E T) E st out off acc
            = Some (([], False), st1)"
          using Some t \<open>rc\<close> u True by simp
        then show ?thesis by blast
      next
        case False
        obtain n r where n: "expandVars n (getRecResponse n E T) E st out ?off'
          (acc @ qmid out off (i - 1 - off) @ v) = Some r"
          using less [OF dec] by blast
        let ?m = "max n k"
        have a: "getRecResponse (Suc ?m) E T st (vs_value E (m_stack st) nm) = Some u"
          using getRecResponse_le [OF _ k, of "Suc ?m"] by simp
        have b: "expandVars ?m (getRecResponse (Suc ?m) E T) E st out ?off'
          (acc @ qmid out off (i - 1 - off) @ v) = Some r"
          using expandVars_mono [OF getRecResponse_mono _ n, of "Suc ?m" ?m] by simp
        have "expandVars (Suc ?m) (getRecResponse (Suc ?m) E T) E st out off acc = Some r"
          using Some t \<open>rc\<close> a u st1 False b by (simp add: ac_simps)
        then show ?thesis by blast
      qed
    qed
  qed
qed

lemma expandVars_le:
  "n \<le> m \<Longrightarrow> expandVars n (getRecResponse n E T) E st out off acc = Some r \<Longrightarrow>
     expandVars m (getRecResponse m E T) E st out off acc = Some r"
  using expandVars_mono [OF getRecResponse_mono] by blast

lemma getValidOutput_le:
  "n \<le> m \<Longrightarrow> getValidOutput n (getRecResponse n E T) E st es = Some r \<Longrightarrow>
     getValidOutput m (getRecResponse m E T) E st es = Some r"
  using getValidOutput_mono [OF getRecResponse_mono] by blast

lemma handleEndWord_le:
  "n \<le> m \<Longrightarrow> handleEndWord n (getRecResponse n E T) E T st rs node off = Some r \<Longrightarrow>
     handleEndWord m (getRecResponse m E T) E T st rs node off = Some r"
  using handleEndWord_mono [OF getRecResponse_mono] by blast

lemma scoredDFS_le:
  "n \<le> m \<Longrightarrow> scoredDFS n (getRecResponse n E T) E T st rs root ws off = Some r \<Longrightarrow>
     scoredDFS m (getRecResponse m E T) E T st rs root ws off = Some r"
  using scoredDFS_mono [OF getRecResponse_mono] by blast

lemma scoredDFS_loop_le:
  "n \<le> m \<Longrightarrow> scoredDFS_loop n (getRecResponse n E T) E T st rs cs ws off = Some r \<Longrightarrow>
     scoredDFS_loop m (getRecResponse m E T) E T st rs cs ws off = Some r"
  using scoredDFS_mono [OF getRecResponse_mono] by blast

lemma scoredDFS_up:
  "k \<le> k' \<Longrightarrow> n \<le> m \<Longrightarrow>
     scoredDFS n (getRecResponse k E T) E T st rs root ws off = Some r \<Longrightarrow>
     scoredDFS m (getRecResponse k' E T) E T st rs root ws off = Some r"
  using scoredDFS_mono [OF getRecResponse_mono] by blast

lemma scoredDFS_loop_up:
  "k \<le> k' \<Longrightarrow> n \<le> m \<Longrightarrow>
     scoredDFS_loop n (getRecResponse k E T) E T st rs cs ws off = Some r \<Longrightarrow>
     scoredDFS_loop m (getRecResponse k' E T) E T st rs cs ws off = Some r"
  using scoredDFS_mono [OF getRecResponse_mono] by blast

lemma handleEndWord_up:
  "k \<le> k' \<Longrightarrow> n \<le> m \<Longrightarrow>
     handleEndWord n (getRecResponse k E T) E T st rs node off = Some r \<Longrightarrow>
     handleEndWord m (getRecResponse k' E T) E T st rs node off = Some r"
  using handleEndWord_mono [OF getRecResponse_mono] by blast

lemma scoredDFS_det1:
  "pureR R \<Longrightarrow> scoredDFS n R E T st rs root ws off = Some (rs', st') \<Longrightarrow>
     m_loopDetector st' = m_loopDetector st"
  using scoredDFS_detector by blast

lemma scoredDFS_inv1:
  "pureR R \<Longrightarrow> capturesBounded E I \<Longrightarrow> \<forall>w\<in>set ws. isToken E (origWord w) \<Longrightarrow>
     scoredDFS n R E T st rs root ws off = Some (rs', st') \<Longrightarrow> I (m_stack st) off \<Longrightarrow>
     I (m_stack st') off"
  using scoredDFS_stack_inv by blast

lemma scoredDFS_loop_match:
  "0 < matchPolicy E (T ! node) (ws ! off) \<Longrightarrow>
   (if off + 1 < length ws
    then scoredDFS n R E T (captureMatch E (ws ! off) off (matchPolicy E (T ! node) (ws ! off))
           (stackUpdate E (T ! node) off st)) rs node ws (off + 1)
    else handleEndWord n R E T (captureMatch E (ws ! off) off (matchPolicy E (T ! node) (ws ! off))
           (stackUpdate E (T ! node) off st)) rs node off) = Some (rs1, st4) \<Longrightarrow>
   scoredDFS_loop n R E T st4 rs1 cs ws off = Some r \<Longrightarrow>
   scoredDFS_loop (Suc n) R E T st rs (node # cs) ws off = Some r"
  by (simp add: Let_def)

lemma scoredDFS_loop_nomatch:
  "\<not> 0 < matchPolicy E (T ! node) (ws ! off) \<Longrightarrow>
   scoredDFS_loop n R E T (stackUpdate E (T ! node) off st) rs cs ws off = Some r \<Longrightarrow>
   scoredDFS_loop (Suc n) R E T st rs (node # cs) ws off = Some r"
  by (simp add: Let_def)

lemma getValidOutput_halts:
  fixes E :: "('vs, 'sc, 'f::{zero,linorder}, 'col) env"
  assumes pp: "parserProgress E"
    and rec: "\<And>nm. \<exists>k r. getRecResponse k E T st (vs_value E (m_stack st) nm) = Some r"
  shows "\<exists>n r. getValidOutput n (getRecResponse n E T) E st es = Some (r :: 'f result option, st)"
proof (induction es)
  case Nil
  show ?case by simp
next
  case (Cons e es)
  obtain k l where e: "e = (k, l)" by (cases e)
  obtain n2 r2 where n2: "getValidOutput n2 (getRecResponse n2 E T) E st es = Some (r2, st)"
    using Cons by blast
  show ?case
  proof (cases "nextValidOutput E l (m_stack st)")
    case None
    then have "getValidOutput n2 (getRecResponse n2 E T) E st (e # es) = Some (r2, st)"
      using n2 e by simp
    then show ?thesis by blast
  next
    case (Some out)
    obtain n1 u where n1: "expandVars n1 (getRecResponse n1 E T) E st out 0 [] = Some u"
      using expandVars_halts [OF pp rec] by blast
    obtain s ok st1 where u: "u = ((s, ok), st1)" by (cases u) auto
    have st1: "st1 = st"
      using expandVars_pure [OF getRecResponse_pure] n1 u by blast
    show ?thesis
    proof (cases ok)
      case True
      then have "getValidOutput n1 (getRecResponse n1 E T) E st (e # es)
          = Some (Some (makeResult s k), st)"
        using e Some n1 u st1 by simp
      then show ?thesis by blast
    next
      case False
      let ?m = "max n1 n2"
      have a: "expandVars ?m (getRecResponse ?m E T) E st out 0 [] = Some ((s, False), st)"
        using expandVars_le [OF _ n1, of ?m] u st1 False by simp
      have b: "getValidOutput ?m (getRecResponse ?m E T) E st es = Some (r2, st)"
        using getValidOutput_le [OF _ n2, of ?m] by simp
      have "getValidOutput ?m (getRecResponse ?m E T) E st (e # es) = Some (r2, st)"
        using e Some a b by simp
      then show ?thesis by blast
    qed
  qed
qed

lemma handleEndWord_halts:
  fixes E :: "('vs, 'sc, 'f::{zero,linorder}, 'col) env"
  assumes pp: "parserProgress E"
    and rec: "\<And>nm. (node, off) \<notin> m_loopDetector st \<Longrightarrow>
        \<exists>k r. getRecResponse k E T
                 (st\<lparr>m_loopDetector := insert (node, off) (m_loopDetector st)\<rparr>)
                 (vs_value E (m_stack st) nm) = Some r"
  shows "\<exists>n r. handleEndWord n (getRecResponse n E T) E T st (rs :: 'f result list) node off
           = Some (r, st)"
proof (cases "(node, off) \<in> m_loopDetector st")
  case True
  then have "handleEndWord 0 (getRecResponse 0 E T) E T st rs node off = Some (rs, st)"
    by (simp add: handleEndWord_def)
  then show ?thesis by blast
next
  case False
  let ?st1 = "st\<lparr>m_loopDetector := insert (node, off) (m_loopDetector st)\<rparr>"
  have "\<exists>k r. getRecResponse k E T ?st1 (vs_value E (m_stack ?st1) nm) = Some r" for nm
    using rec [OF False, of nm] by simp
  from getValidOutput_halts [OF pp this, of "omap (T ! node)"]
  obtain n r where g: "getValidOutput n (getRecResponse n E T) E ?st1 (omap (T ! node))
      = Some (r :: 'f result option, ?st1)" by blast
  obtain r' st' where h: "handleEndWord n (getRecResponse n E T) E T st rs node off = Some (r', st')"
    using False g by (simp add: handleEndWord_def)
  then have "st' = st" using handleEndWord_pure [OF getRecResponse_pure] by blast
  then show ?thesis using h by blast
qed

lemma dfs_halts:
  fixes E :: "('vs, 'sc, 'f::{zero,linorder}, 'col) env"
  assumes pp: "parserProgress E" and cb: "capturesBounded E I"
    and tok: "\<forall>w\<in>set ws. isToken E (origWord w)"
    and valid: "\<forall>n<length T. set (childs (T ! n)) \<subseteq> {..<length T}"
    and len: "length ws \<le> L"
    and rec: "\<And>node off st v. node < length T \<Longrightarrow> off < L \<Longrightarrow> (node, off) \<notin> D \<Longrightarrow>
        m_loopDetector st = insert (node, off) D \<Longrightarrow> length (parseUserInput E v) \<le> L \<Longrightarrow>
        \<exists>k r. getRecResponse k E T st v = Some r"
  shows "off < length ws \<Longrightarrow> set cs \<subseteq> {..<length T} \<Longrightarrow> m_loopDetector st = D \<Longrightarrow>
         I (m_stack st) off \<Longrightarrow>
         \<exists>n r. scoredDFS_loop n (getRecResponse n E T) E T st (rs :: 'f result list) cs ws off = Some r"
proof (induction "length ws - off" arbitrary: off st rs cs rule: less_induct)
  case less
  note lt = less.prems(1)
  have pure: "pureR (getRecResponse n E T)" for n by (rule getRecResponse_pure)
  have inner: "set cs \<subseteq> {..<length T} \<Longrightarrow> m_loopDetector st = D \<Longrightarrow> I (m_stack st) off \<Longrightarrow>
         \<exists>n r. scoredDFS_loop n (getRecResponse n E T) E T st rs cs ws off = Some r"
    for cs st and rs :: "'f result list"
  proof (induction cs arbitrary: st rs)
    case Nil
    have "scoredDFS_loop (Suc 0) (getRecResponse (Suc 0) E T) E T st rs [] ws off = Some (rs, st)"
      by simp
    then show ?case by blast
  next
    case (Cons node cs')
    let ?w = "matchPolicy E (T ! node) (ws ! off)"
    let ?st1 = "stackUpdate E (T ! node) off st"
    have node: "node < length T" and cs': "set cs' \<subseteq> {..<length T}" using Cons.prems(1) by auto
    have d1: "m_loopDetector ?st1 = D" using Cons.prems(2) by (simp add: stackUpdate_def)
    have i1: "I (m_stack ?st1) off"
      using cb Cons.prems(3) unfolding capturesBounded_def stackUpdate_def by simp
    show ?case
    proof (cases "0 < ?w")
      case False
      obtain n r where n: "scoredDFS_loop n (getRecResponse n E T) E T ?st1 rs cs' ws off = Some r"
        using Cons.IH [OF cs' d1 i1] by blast
      have "scoredDFS_loop n (getRecResponse (Suc n) E T) E T ?st1 rs cs' ws off = Some r"
        using scoredDFS_loop_up [OF _ _ n, of "Suc n" n] by simp
      then have "scoredDFS_loop (Suc n) (getRecResponse (Suc n) E T) E T st rs (node # cs') ws off
          = Some r"
        using scoredDFS_loop_nomatch [OF False] by blast
      then show ?thesis by blast
    next
      case True
      let ?st3 = "captureMatch E (ws ! off) off ?w ?st1"
      have d3: "m_loopDetector ?st3 = D" using d1 by (simp add: captureMatch_def)
      have tk: "isToken E (origWord (ws ! off))" using tok lt by simp
      have i3: "I (m_stack ?st3) (Suc off)"
        using cb Cons.prems(3) tk unfolding capturesBounded_def stack_after_match by blast
      have val: "length (parseUserInput E (vs_value E (m_stack ?st3) nm)) \<le> Suc off" for nm
        using cb Cons.prems(3) tk unfolding capturesBounded_def stack_after_match by blast
      let ?inner = "\<lambda>n. if off + 1 < length ws
                        then scoredDFS n (getRecResponse n E T) E T ?st3 rs node ws (off + 1)
                        else handleEndWord n (getRecResponse n E T) E T ?st3 rs node off"
      have "\<exists>n r. ?inner n = Some r"
      proof (cases "off + 1 < length ws")
        case True
        have "length ws - (off + 1) < length ws - off" using True by simp
        moreover have "set (childs (T ! node)) \<subseteq> {..<length T}" using valid node by simp
        ultimately obtain n r where
          n: "scoredDFS_loop n (getRecResponse n E T) E T ?st3 rs (childs (T ! node)) ws (off + 1) = Some r"
          using less.hyps [of "off + 1" "childs (T ! node)" ?st3 rs] True d3 i3 by auto
        have "scoredDFS_loop n (getRecResponse (Suc n) E T) E T ?st3 rs (childs (T ! node)) ws (off + 1) = Some r"
          using scoredDFS_loop_up [OF _ _ n, of "Suc n" n] by simp
        then have "scoredDFS (Suc n) (getRecResponse (Suc n) E T) E T ?st3 rs node ws (off + 1) = Some r"
          using True by simp
        then show ?thesis using True by (intro exI [of _ "Suc n"] exI [of _ r]) simp
      next
        case False
        have offL: "off < L" using lt len by simp
        have "\<exists>k r. getRecResponse k E T
                 (?st3\<lparr>m_loopDetector := insert (node, off) (m_loopDetector ?st3)\<rparr>)
                 (vs_value E (m_stack ?st3) nm) = Some r"
          if "(node, off) \<notin> m_loopDetector ?st3" for nm
        proof (rule rec [OF node offL])
          show "(node, off) \<notin> D" using that d3 by simp
          show "m_loopDetector (?st3\<lparr>m_loopDetector := insert (node, off) (m_loopDetector ?st3)\<rparr>)
              = insert (node, off) D" using d3 by simp
          show "length (parseUserInput E (vs_value E (m_stack ?st3) nm)) \<le> L"
            using val [of nm] lt len by simp
        qed
        from handleEndWord_halts [OF pp this, of rs]
        show ?thesis using False by auto
      qed
      then obtain n1 u where n1: "?inner n1 = Some u" by blast
      obtain rs1 st4 where u: "u = (rs1, st4)" by (cases u)
      have d4: "m_loopDetector st4 = D"
      proof (cases "off + 1 < length ws")
        case True
        then have "scoredDFS n1 (getRecResponse n1 E T) E T ?st3 rs node ws (off + 1) = Some (rs1, st4)"
          using n1 u by simp
        from scoredDFS_det1 [OF pure this] d3 show ?thesis by simp
      next
        case False
        then have "st4 = ?st3" using n1 u handleEndWord_pure [OF pure] by auto
        then show ?thesis using d3 by simp
      qed
      have "I (m_stack st4) (Suc off)"
      proof (cases "off + 1 < length ws")
        case True
        then have "scoredDFS n1 (getRecResponse n1 E T) E T ?st3 rs node ws (Suc off) = Some (rs1, st4)"
          using n1 u by simp
        from scoredDFS_inv1 [OF pure cb tok this i3] show ?thesis .
      next
        case False
        then have "st4 = ?st3" using n1 u handleEndWord_pure [OF pure] by auto
        then show ?thesis using i3 by simp
      qed
      then have i4: "I (m_stack st4) off"
        using cb unfolding capturesBounded_def by blast
      obtain n2 r where n2: "scoredDFS_loop n2 (getRecResponse n2 E T) E T st4 rs1 cs' ws off = Some r"
        using Cons.IH [OF cs' d4 i4] by blast
      let ?m = "max n1 n2"
      have a: "(if off + 1 < length ws
                then scoredDFS ?m (getRecResponse (Suc ?m) E T) E T ?st3 rs node ws (off + 1)
                else handleEndWord ?m (getRecResponse (Suc ?m) E T) E T ?st3 rs node off)
               = Some (rs1, st4)"
      proof (cases "off + 1 < length ws")
        case True
        then have "scoredDFS n1 (getRecResponse n1 E T) E T ?st3 rs node ws (off + 1) = Some (rs1, st4)"
          using n1 u by simp
        from scoredDFS_up [OF _ _ this, of "Suc ?m" ?m] True show ?thesis by simp
      next
        case False
        then have "handleEndWord n1 (getRecResponse n1 E T) E T ?st3 rs node off = Some (rs1, st4)"
          using n1 u by simp
        from handleEndWord_up [OF _ _ this, of "Suc ?m" ?m] False show ?thesis by simp
      qed
      have b: "scoredDFS_loop ?m (getRecResponse (Suc ?m) E T) E T st4 rs1 cs' ws off = Some r"
        using scoredDFS_loop_up [OF _ _ n2, of "Suc ?m" ?m] by simp
      have "scoredDFS_loop (Suc ?m) (getRecResponse (Suc ?m) E T) E T st rs (node # cs') ws off
          = Some r"
        using scoredDFS_loop_match [OF True a b] .
      then show ?thesis by blast
    qed
  qed
  show ?case using inner less.prems(2-4) by blast
qed

subsection \<open>The recursion is bounded by the loop detector\<close>

text \<open>
  An expansion is entered from \<open>handleEndWord\<close> only for a pair (node, offset) that is
  not in the loop detector, and the pair stays in it for the whole expansion. The pairs a
  query on at most \<open>L\<close> words can reach lie in a finite set, and the words dispatched by
  a recursive reference are at most the words captured, so every nested call runs with
  fewer pairs left.
\<close>

lemma getRecResponse_step:
  assumes "scoredDFS n (getRecResponse n E T) E T
             (st\<lparr>m_stack := vs_new E, m_scoringAlg := sc_new E\<rparr>) [] 0 (parseUserInput E v) 0
           = Some u"
  shows "\<exists>r. getRecResponse (Suc n) E T st v = Some r"
proof -
  obtain rs st' where u: "u = (rs, st')" by (cases u)
  show ?thesis
    using assms u by (simp add: getResponse_def getResponses_def sortedResults_def split: prod.splits)
qed

lemma top_dfs_halts:
  fixes E :: "('vs, 'sc, 'f::{zero,linorder}, 'col) env"
  assumes pp: "parserProgress E" and cb: "capturesBounded E I"
    and ne: "T \<noteq> []"
    and valid: "\<forall>n<length T. set (childs (T ! n)) \<subseteq> {..<length T}"
    and len: "length (parseUserInput E v) \<le> L"
    and rec: "\<And>node off st v. node < length T \<Longrightarrow> off < L \<Longrightarrow>
        (node, off) \<notin> m_loopDetector st0 \<Longrightarrow>
        m_loopDetector st = insert (node, off) (m_loopDetector st0) \<Longrightarrow>
        length (parseUserInput E v) \<le> L \<Longrightarrow>
        \<exists>k r. getRecResponse k E T st v = Some r"
  shows "\<exists>n r. scoredDFS n (getRecResponse n E T) E T st0 ([] :: 'f result list) 0
           (parseUserInput E v) 0 = Some r"
proof (cases "parseUserInput E v = []")
  case True
  then have "scoredDFS (Suc 0) (getRecResponse (Suc 0) E T) E T st0 ([] :: 'f result list) 0
      (parseUserInput E v) 0 = Some ([], st0)"
    by simp
  then show ?thesis by blast
next
  case False
  let ?ws = "parseUserInput E v"
  have tok: "\<forall>w\<in>set ?ws. isToken E (origWord w)"
    unfolding isToken_def by blast
  have lt: "0 < length ?ws" using False by simp
  have cs: "set (childs (T ! 0)) \<subseteq> {..<length T}" using valid ne by simp
  have i0: "I (m_stack st0) 0" using cb unfolding capturesBounded_def by blast
  have "\<exists>n r. scoredDFS_loop n (getRecResponse n E T) E T st0 ([] :: 'f result list)
      (childs (T ! 0)) ?ws 0 = Some r"
    by (rule dfs_halts [OF pp cb tok valid len _ lt cs refl i0]) (blast intro: rec)
  then obtain n r where
    n: "scoredDFS_loop n (getRecResponse n E T) E T st0 ([] :: 'f result list) (childs (T ! 0)) ?ws 0
        = Some r"
    by blast
  have "scoredDFS_loop n (getRecResponse (Suc n) E T) E T st0 [] (childs (T ! 0)) ?ws 0 = Some r"
    using scoredDFS_loop_up [OF _ _ n, of "Suc n" n] by simp
  then have "scoredDFS (Suc n) (getRecResponse (Suc n) E T) E T st0 [] 0 ?ws 0 = Some r"
    using False by simp
  then show ?thesis by blast
qed

lemma getRecResponse_halts:
  fixes E :: "('vs, 'sc, 'f::{zero,linorder}, 'col) env"
  assumes pp: "parserProgress E" and cb: "capturesBounded E I"
    and ne: "T \<noteq> []"
    and valid: "\<forall>n<length T. set (childs (T ! n)) \<subseteq> {..<length T}"
  shows "length (parseUserInput E v) \<le> L \<Longrightarrow>
         \<exists>k r. getRecResponse k E T (st :: ('vs, 'sc) qstate) v = Some r"
proof (induction "card (({..<length T} \<times> {..<L}) - m_loopDetector st)"
         arbitrary: st v rule: less_induct)
  case less
  let ?st0 = "st\<lparr>m_stack := vs_new E, m_scoringAlg := sc_new E\<rparr>"
  have rec: "\<exists>k r. getRecResponse k E T st' v' = Some r"
    if "node < length T" "off < L" "(node, off) \<notin> m_loopDetector ?st0"
      "m_loopDetector st' = insert (node, off) (m_loopDetector ?st0)"
      "length (parseUserInput E v') \<le> L"
    for node off st' v'
  proof -
    have fin: "finite (({..<length T} \<times> {..<L}) - m_loopDetector st)" by simp
    have mem: "(node, off) \<in> ({..<length T} \<times> {..<L}) - m_loopDetector st"
      using that(1-3) by simp
    have eq: "({..<length T} \<times> {..<L}) - m_loopDetector st'
        = (({..<length T} \<times> {..<L}) - m_loopDetector st) - {(node, off)}"
      using that(4) by auto
    have "card (({..<length T} \<times> {..<L}) - m_loopDetector st')
        < card (({..<length T} \<times> {..<L}) - m_loopDetector st)"
      unfolding eq by (rule card_Diff1_less [OF fin mem])
    from less.hyps [OF this that(5)] show ?thesis .
  qed
  have "\<exists>n r. scoredDFS n (getRecResponse n E T) E T ?st0 ([] :: 'f result list) 0
      (parseUserInput E v) 0 = Some r"
    by (rule top_dfs_halts [OF pp cb ne valid less.prems]) (blast intro: rec)
  then obtain n r where "scoredDFS n (getRecResponse n E T) E T ?st0 ([] :: 'f result list) 0
      (parseUserInput E v) 0 = Some r"
    by blast
  from getRecResponse_step [OF this] show ?case by blast
qed

lemma Tree_getResponses_halts:
  fixes E :: "('vs, 'sc, 'f::{zero,linorder}, 'col) env"
  assumes pp: "parserProgress E" and cb: "capturesBounded E I"
    and ne: "T \<noteq> []"
    and valid: "\<forall>n<length T. set (childs (T ! n)) \<subseteq> {..<length T}"
  shows "\<exists>n r. Tree_getResponses n E T (st :: ('vs, 'sc) qstate) inp = Some r"
proof -
  have "\<exists>n r. scoredDFS n (getRecResponse n E T) E T st ([] :: 'f result list) 0
           (parseUserInput E inp) 0 = Some r"
    by (rule top_dfs_halts [OF pp cb ne valid order_refl])
       (rule getRecResponse_halts [OF pp cb ne valid])
  then obtain n u where
    n: "scoredDFS n (getRecResponse n E T) E T st ([] :: 'f result list) 0
          (parseUserInput E inp) 0 = Some u" by blast
  obtain rs st' where u: "u = (rs, st')" by (cases u)
  have "\<exists>r. Tree_getResponses n E T st inp = Some r"
    using n u by (simp add: Tree_getResponses_def getResponses_def sortedResults_def)
  then show ?thesis by blast
qed

lemma Tree_getResponses_le:
  "n \<le> m \<Longrightarrow> Tree_getResponses n E T st inp = Some r \<Longrightarrow> Tree_getResponses m E T st inp = Some r"
proof -
  assume le: "n \<le> m" and a: "Tree_getResponses n E T st inp = Some r"
  obtain rs st' where
    s: "scoredDFS n (getRecResponse n E T) E T st [] 0 (parseUserInput E inp) 0 = Some (rs, st')"
    using a
    by (auto simp: Tree_getResponses_def getResponses_def sortedResults_def split: option.splits)
  have "scoredDFS m (getRecResponse m E T) E T st [] 0 (parseUserInput E inp) 0 = Some (rs, st')"
    using scoredDFS_le [OF le s] .
  then show ?thesis
    using a s by (simp add: Tree_getResponses_def getResponses_def sortedResults_def)
qed

lemma treeInv_valid:
  "treeInv T \<Longrightarrow> T \<noteq> [] \<and> (\<forall>n<length T. set (childs (T ! n)) \<subseteq> {..<length T})"
  unfolding treeInv_def by auto

subsection \<open>The reference collaborators keep the contracts\<close>

lemma findChar_bounds:
  "findChar c xs k = Some i \<Longrightarrow> k \<le> i \<and> i < k + length xs"
proof (induction xs arbitrary: k)
  case Nil
  then show ?case by simp
next
  case (Cons x xs)
  show ?case
  proof (cases "x = c")
    case True
    then show ?thesis using Cons.prems by simp
  next
    case False
    then have "findChar c xs (Suc k) = Some i" using Cons.prems by simp
    from Cons.IH [OF this] show ?thesis by simp
  qed
qed

lemma refEnv_parserProgress: "parserProgress refEnv"
  unfolding parserProgress_def
proof (intro allI impI)
  fix out :: string and offset i :: int and varName :: string and recursive :: bool
  assume a: "parseVariable refEnv out offset = Some (i, varName, recursive)"
  then have off: "0 \<le> offset"
    by (simp add: refEnv_def refParseVariable_def split: if_splits)
  obtain i' where i': "findChar (CHR 0x5B) (drop (nat offset) out) (nat offset) = Some i'"
    using a off by (auto simp: refEnv_def refParseVariable_def split: option.splits)
  obtain j where j: "findChar (CHR 0x5D) (drop (Suc i') out) (Suc i') = Some j"
    using a off i' by (auto simp: refEnv_def refParseVariable_def split: option.splits)
  have res: "i = int i'" "varName = take (j - Suc i') (drop (Suc i') out)"
    using a off i' j by (simp_all add: refEnv_def refParseVariable_def)
  have b1: "nat offset \<le> i'" using findChar_bounds [OF i'] by simp
  have b2: "Suc i' \<le> j" "j < Suc i' + length (drop (Suc i') out)"
    using findChar_bounds [OF j] by simp_all
  have jl: "j < length out" using b2 by simp
  have len: "length varName = j - Suc i'" using res(2) b2 jl by simp
  show "offset < i + int (length varName) + 2 \<and> i + int (length varName) + 2 \<le> int (length out)"
    using res(1) len b1 b2(1) jl off by simp
qed

lemma splitWords_length:
  "length (splitWords cur s) \<le> Suc (length (filter (\<lambda>c. c = CHR 0x20) s))"
proof (induction s arbitrary: cur)
  case Nil
  then show ?case by simp
next
  case (Cons c cs)
  show ?case
  proof (cases "c = CHR 0x20")
    case True
    then show ?thesis using Cons.IH [of "[]"] by simp
  next
    case False
    then show ?thesis using Cons.IH [of "cur @ [c]"] by simp
  qed
qed

lemma splitWords_empty: "splitWords [] [] = []"
  by simp

lemma splitWords_blankFree:
  "blankFree cur \<Longrightarrow> \<forall>w\<in>set (splitWords cur s). blankFree w"
proof (induction s arbitrary: cur)
  case Nil
  then show ?case by simp
next
  case (Cons c cs)
  have e: "blankFree []" by (simp add: blankFree_def)
  show ?case
  proof (cases "c = CHR 0x20")
    case True
    then show ?thesis using Cons.IH [OF e] Cons.prems by simp
  next
    case False
    then have "blankFree (cur @ [c])" using Cons.prems by (simp add: blankFree_def)
    from Cons.IH [OF this] show ?thesis using False by simp
  qed
qed

lemma joinWords_blanks:
  "ws \<noteq> [] \<Longrightarrow> \<forall>w\<in>set ws. blankFree w \<Longrightarrow>
     length (filter (\<lambda>c. c = CHR 0x20) (joinWords ws)) = length ws - 1"
proof (induction ws rule: joinWords.induct)
  case 1
  then show ?case by simp
next
  case (2 w)
  then have "filter (\<lambda>c. c = CHR 0x20) w = []"
    by (auto simp: blankFree_def filter_empty_conv)
  then show ?case by simp
next
  case (3 w v vs)
  have "filter (\<lambda>c. c = CHR 0x20) w = []"
    using "3.prems" by (auto simp: blankFree_def filter_empty_conv)
  then show ?case using 3 by simp
qed

lemma filterSymbols_length: "length (filterSymbols E ws) \<le> length ws"
  by (induction ws) auto

lemma filterSymbols_subset: "set (filterSymbols E ws) \<subseteq> set ws"
  by (induction ws) auto

lemma refParse_length:
  assumes "\<forall>w\<in>set ws. blankFree w"
  shows "length (parseUserInput refEnv (joinWords ws)) \<le> length ws"
proof (cases "ws = []")
  case True
  then show ?thesis by (simp add: parseUserInput_def refEnv_def refLemmatize_def)
next
  case False
  let ?s = "filter (\<lambda>c. c \<noteq> CHR 0x27) (joinWords ws)"
  have "filter (\<lambda>c. c = CHR 0x20) ?s = filter (\<lambda>c. c = CHR 0x20) (joinWords ws)"
    by (simp add: filter_filter) (rule filter_cong, auto)
  then have "length (filter (\<lambda>c. c = CHR 0x20) ?s) = length ws - 1"
    using joinWords_blanks [OF False assms] by simp
  then have "length (splitWords [] ?s) \<le> length ws"
    using splitWords_length [of "[]" ?s] False by (cases ws) simp_all
  moreover have "length (parseUserInput refEnv (joinWords ws)) \<le> length (splitWords [] ?s)"
    using filterSymbols_length [of refEnv "refLemmatize ?s"]
    by (simp add: parseUserInput_def refEnv_def refLemmatize_def)
  ultimately show ?thesis by simp
qed

lemma refToken_blankFree:
  assumes "isToken refEnv w"
  shows "blankFree w"
proof -
  obtain inp where "w \<in> origWord ` set (parseUserInput refEnv inp)"
    using assms unfolding isToken_def by blast
  then have "w \<in> origWord ` set (refLemmatize (filter (\<lambda>c. c \<noteq> CHR 0x27) inp))"
    using filterSymbols_subset [of refEnv]
    by (auto simp: parseUserInput_def refEnv_def)
  then have "w \<in> set (splitWords [] (filter (\<lambda>c. c \<noteq> CHR 0x27) inp))"
    by (auto simp: refLemmatize_def)
  then show ?thesis using splitWords_blankFree [of "[]"] by (simp add: blankFree_def)
qed

lemma refUpdate_free:
  "refStackInv s off \<Longrightarrow> list_all (\<lambda>e. blankFree (snd e)) (refUpdate name off s)"
  by (simp add: refStackInv_def refUpdate_def blankFree_def)

lemma refCapture_free:
  assumes "list_all (\<lambda>e. blankFree (snd e)) t" and "blankFree w"
  shows "list_all (\<lambda>e. blankFree (snd e)) (refCapture w off t)"
proof (cases "off < length t")
  case False
  then show ?thesis using assms by (simp add: refCapture_def)
next
  case True
  have "blankFree (snd (t ! off))" using assms(1) True by (simp add: list_all_length)
  then have "blankFree (snd (t ! off) @ w)" using assms(2) by (simp add: blankFree_def)
  moreover have "set (t[off := (fst (t ! off), snd (t ! off) @ w)])
      \<subseteq> insert (fst (t ! off), snd (t ! off) @ w) (set t)"
    by (rule set_update_subset_insert)
  ultimately show ?thesis
    using assms(1) True by (auto simp: refCapture_def list_all_iff)
qed

lemma refStack_length: "length (refCapture w off (refUpdate name off s)) \<le> Suc off"
proof -
  have "length (refUpdate name off s) \<le> Suc off" by (simp add: refUpdate_def)
  moreover have "length (refCapture w off t) = length t" for t :: "(string \<times> string) list"
    by (simp add: refCapture_def)
  ultimately show ?thesis by simp
qed

lemma refValue_length:
  assumes "list_all (\<lambda>e. blankFree (snd e)) t"
  shows "length (parseUserInput refEnv (refValue t nm)) \<le> length t"
proof -
  let ?ws = "map snd (filter (\<lambda>e. fst e = nm \<and> snd e \<noteq> []) t)"
  have "\<forall>w\<in>set ?ws. blankFree w" using assms by (auto simp: list_all_iff)
  from refParse_length [OF this] have "length (parseUserInput refEnv (refValue t nm)) \<le> length ?ws"
    by (simp add: refValue_def)
  also have "\<dots> \<le> length t" by simp
  finally show ?thesis .
qed

lemma list_all_take: "list_all P xs \<Longrightarrow> list_all P (take k xs)"
  by (auto simp: list_all_iff dest: in_set_takeD)

lemma refEnv_capturesBounded: "capturesBounded refEnv refStackInv"
  unfolding capturesBounded_def
proof (intro conjI allI impI)
  fix s :: "(string \<times> string) list"
  show "refStackInv s 0" by (simp add: refStackInv_def)
next
  fix s :: "(string \<times> string) list" and offset
  assume "refStackInv s (Suc offset)"
  then have "list_all (\<lambda>e. blankFree (snd e)) (take offset (take (Suc offset) s))"
    unfolding refStackInv_def by (rule list_all_take)
  then show "refStackInv s offset" by (simp add: refStackInv_def min_def)
next
  fix s :: "(string \<times> string) list" and name offset
  assume "refStackInv s offset"
  then show "refStackInv (vs_update refEnv name offset s) offset"
    using list_all_take [OF refUpdate_free] by (simp add: refStackInv_def refEnv_def)
next
  fix s :: "(string \<times> string) list" and name w offset
  assume a: "refStackInv s offset \<and> isToken refEnv w"
  then have "list_all (\<lambda>e. blankFree (snd e)) (refCapture w offset (refUpdate name offset s))"
    using refCapture_free [OF refUpdate_free refToken_blankFree] by blast
  then show "refStackInv (vs_capture refEnv w offset (vs_update refEnv name offset s)) (Suc offset)"
    using list_all_take by (simp add: refStackInv_def refEnv_def)
next
  fix s :: "(string \<times> string) list" and name w offset name'
  assume a: "refStackInv s offset \<and> isToken refEnv w"
  then have "list_all (\<lambda>e. blankFree (snd e)) (refCapture w offset (refUpdate name offset s))"
    using refCapture_free [OF refUpdate_free refToken_blankFree] by blast
  from refValue_length [OF this, of name'] refStack_length [of w offset name s]
  show "length (parseUserInput refEnv
                  (vs_value refEnv (vs_capture refEnv w offset (vs_update refEnv name offset s)) name'))
          \<le> Suc offset"
    by (simp add: refEnv_def)
qed

text \<open>
  C1, as amended. For every tree built by a sequence of \<^verbatim>\<open>add(rule)\<close> calls, every
  state of the members and every input string, \<^verbatim>\<open>getResponses\<close> returns: some amount of
  fuel is enough, and with any larger amount the result is the same. The collaborators
  are taken with their contracts: the variable parser makes progress
  (\<open>parserProgress\<close>), and a captured value dispatched again is parsed into no more
  words than were captured (\<open>capturesBounded\<close>). What bounds the nesting of
  \<^verbatim>\<open>getRecResponse\<close> is the loop detector of \<^verbatim>\<open>handleEndWord\<close> alone: every nested
  expansion runs with one more (node, offset) pair in it, out of the nodes of the tree
  and the positions of the input, wildcard and variable loop edges included. There is no
  cap on the depth, and no expansion fails for being nested deep.
\<close>

theorem getResponses_terminates:
  fixes E :: "('vs, 'sc, 'f::{zero,linorder}, 'col) env"
  assumes built: "addRules E rules newTree = Some T"
    and pp: "parserProgress E" and cb: "capturesBounded E I"
  shows "\<exists>n r. \<forall>m\<ge>n. Tree_getResponses m E T st inp = Some r"
proof -
  have "treeInv T" using addRules_treeInv [OF treeInv_newTree, of E rules] built by simp
  then have ne: "T \<noteq> []" and valid: "\<forall>n<length T. set (childs (T ! n)) \<subseteq> {..<length T}"
    using treeInv_valid by blast+
  obtain n r where n: "Tree_getResponses n E T st inp = Some r"
    using Tree_getResponses_halts [OF pp cb ne valid] by blast
  have "\<forall>m\<ge>n. Tree_getResponses m E T st inp = Some r"
    using Tree_getResponses_le [OF _ n] by blast
  then show ?thesis by blast
qed

theorem getResponses_terminates_witness:
  "addRules refEnv [refRule 6 [''[x]''] ''r[x]''] newTree = Some loopTree \<and>
   parserProgress refEnv \<and> capturesBounded refEnv refStackInv \<and>
   (\<exists>n r. \<forall>m\<ge>n. Tree_getResponses m refEnv loopTree (newState refEnv) ''hello world'' = Some r)"
proof -
  have h: "addRules refEnv [refRule 6 [''[x]''] ''r[x]''] newTree = Some loopTree"
    by code_simp
  show ?thesis
    using h refEnv_parserProgress refEnv_capturesBounded
      getResponses_terminates [OF h refEnv_parserProgress refEnv_capturesBounded,
        of "newState refEnv" "''hello world''"]
    by blast
qed

subsection \<open>A recursion nested deeper than 64\<close>

text \<open>
  The query on \<open>deepInput n\<close> is followed symbolically: the search walks the word node,
  then the loop edge of the variable node up to the last word, and the expansion there
  dispatches \<open>deepInput (n - 1)\<close>.
\<close>

lemma deepTree_nodes:
  "deepTree =
     [\<lparr>ntype = RootNode, parent = None, childs = [1, 3], omap = []\<rparr>,
      \<lparr>ntype = WordNode wordA, parent = Some 0, childs = [2], omap = []\<rparr>,
      \<lparr>ntype = VariableNode ''x'', parent = Some 1, childs = [2], omap = [(1024, [''r[x]''])]\<rparr>,
      \<lparr>ntype = WordNode wordB, parent = Some 0, childs = [], omap = [(2048, [''ok''])]\<rparr>]"
  by code_simp

lemma deepTree_childs:
  "childs (deepTree ! 0) = [1, 3]" "childs (deepTree ! Suc 0) = [2]" "childs (deepTree ! 2) = [2]"
  "childs (deepTree ! 3) = []"
  by (simp_all add: deepTree_nodes)

lemma deepTree_omap:
  "omap (deepTree ! 2) = [(1024, [''r[x]''])]" "omap (deepTree ! 3) = [(2048, [''ok''])]"
  by (simp_all add: deepTree_nodes)

lemma deepTree_policy:
  "matchPolicy refEnv (deepTree ! Suc 0) wordA = 2" "matchPolicy refEnv (deepTree ! Suc 0) wordB = 0"
  "matchPolicy refEnv (deepTree ! 3) wordA = 0" "matchPolicy refEnv (deepTree ! 3) wordB = 2"
  "matchPolicy refEnv (deepTree ! 2) w = 1"
  by (simp_all add: deepTree_nodes refEnv_def refPolicy_def wordA_def wordB_def)

lemma deepTree_names:
  "updateName (deepTree ! Suc 0) = []" "updateName (deepTree ! 2) = ''x''"
  "updateName (deepTree ! 3) = []"
  by (simp_all add: deepTree_nodes updateName_def)

lemma refEnv_sel:
  "vs_update refEnv = refUpdate" "vs_capture refEnv = refCapture" "vs_value refEnv = refValue"
  "vs_new refEnv = []" "sc_new refEnv = []" "nextValidOutput refEnv = refNextValidOutput"
  "parseVariable refEnv = refParseVariable"
  by (simp_all add: refEnv_def)

lemma template_facts:
  "refParseVariable ''r[x]'' 0 = Some (1, ''x'', True)"
  "refParseVariable ''r[x]'' 4 = None"
  "refParseVariable ''ok'' 0 = None"
  "qmid ''r[x]'' 0 0 = []" "qmid ''r[x]'' 4 (- 1) = []" "qmid ''ok'' 0 (- 1) = ''ok''"
  by code_simp+

lemma key_facts:
  "getRuleId 1024 = 1" "getInputIndex 1024 = 0" "getRuleId 2048 = 2" "getInputIndex 2048 = 0"
  by code_simp+

lemma deepInput_Suc: "deepInput (Suc n) = ''a '' @ deepInput n"
  by (cases n) (simp_all add: deepInput_def)

lemma parse_deepInput: "parseUserInput refEnv (deepInput n) = replicate n wordA @ [wordB]"
proof (induction n)
  case 0
  show ?case by (simp add: deepInput_def wordB_def) code_simp
next
  case (Suc n)
  have s: "splitWords [] (CHR ''a'' # CHR 0x20 # t) = ''a'' # splitWords [] t" for t by simp
  have a: "\<not> refIsSymbol \<lparr>origWord = ''a'', normWord = toLower ''a'', wlemma = toLower ''a'', posTag = []\<rparr>"
    by code_simp
  have l: "toLower ''a'' = ''a''" by code_simp
  show ?case
    using Suc a unfolding deepInput_Suc parseUserInput_def
    by (simp add: refEnv_def refLemmatize_def wordA_def l)
qed

lemma match_detector:
  "m_loopDetector (captureMatch E w off mw (stackUpdate E nd off st)) = m_loopDetector st"
  by (simp add: captureMatch_def stackUpdate_def)

lemma match_stack:
  "off \<le> length (m_stack st) \<Longrightarrow>
   m_stack (captureMatch refEnv w off mw (stackUpdate refEnv nd off st))
     = take off (m_stack st) @ [(updateName nd, origWord w)]"
  by (simp add: stack_after_match refEnv_sel refCapture_def refUpdate_def nth_append
        list_update_append min_def)

lemma detector_restore:
  "x \<notin> m_loopDetector st \<Longrightarrow>
   st\<lparr>m_loopDetector := insert x (m_loopDetector st)\<rparr>
     \<lparr>m_loopDetector := insert x (m_loopDetector st) - {x}\<rparr> = st"
  by simp

lemma expand_rx:
  assumes "R st (refValue (m_stack st) ''x'') = Some ((''ok'', m), st)"
  shows "expandVars (Suc (Suc f)) R refEnv st ''r[x]'' 0 [] = Some ((''ok'', True), st)"
  using assms by (simp add: refEnv_sel template_facts)

lemma expand_ok: "expandVars (Suc f) R refEnv st ''ok'' 0 [] = Some ((''ok'', True), st)"
  by (simp add: refEnv_sel template_facts)

lemma end_var:
  fixes rs :: "int result list"
  assumes R: "R (st\<lparr>m_loopDetector := insert (2, n) (m_loopDetector st)\<rparr>)
                (refValue (m_stack st) ''x'')
              = Some ((''ok'', m), st\<lparr>m_loopDetector := insert (2, n) (m_loopDetector st)\<rparr>)"
    and nD: "(2, n) \<notin> m_loopDetector st"
  shows "\<exists>r. handleEndWord (Suc (Suc f)) R refEnv deepTree st rs 2 n = Some (rs @ [r], st)
             \<and> okResult 1 r"
proof -
  let ?st1 = "st\<lparr>m_loopDetector := insert (2, n) (m_loopDetector st)\<rparr>"
  have e: "expandVars (Suc (Suc f)) R refEnv ?st1 ''r[x]'' 0 [] = Some ((''ok'', True), ?st1)"
    using expand_rx [of R ?st1 m f] R by simp
  have g: "getValidOutput (Suc (Suc f)) R refEnv ?st1 (omap (deepTree ! 2))
      = Some (Some (makeResult ''ok'' 1024 :: int result), ?st1)"
    unfolding deepTree_omap using e by (simp add: refEnv_sel refNextValidOutput_def)
  show ?thesis
    unfolding handleEndWord_def using nD g
    by (simp add: okResult_def makeResult_def key_facts)
qed

lemma end_b:
  fixes rs :: "int result list"
  assumes nD: "(3, 0) \<notin> m_loopDetector st"
  shows "\<exists>r. handleEndWord (Suc f) R refEnv deepTree st rs 3 0 = Some (rs @ [r], st)
             \<and> okResult 2 r"
proof -
  let ?st1 = "st\<lparr>m_loopDetector := insert (3, 0) (m_loopDetector st)\<rparr>"
  have g: "getValidOutput (Suc f) R refEnv ?st1 (omap (deepTree ! 3))
      = Some (Some (makeResult ''ok'' 2048 :: int result), ?st1)"
    unfolding deepTree_omap using expand_ok [of f R ?st1]
    by (simp add: refEnv_sel refNextValidOutput_def)
  show ?thesis
    unfolding handleEndWord_def using nD g
    by (simp add: okResult_def makeResult_def key_facts)
qed

lemma value_chain:
  "refValue ((([], ''a'') # replicate k (''x'', ''a'')) @ [(''x'', ''b'')]) ''x'' = deepInput k"
  by (simp add: refValue_def deepInput_def)

lemma deep_words:
  "length (replicate n wordA @ [wordB]) = Suc n"
  "j < n \<Longrightarrow> (replicate n wordA @ [wordB]) ! j = wordA"
  "(replicate n wordA @ [wordB]) ! n = wordB"
  by (simp_all add: nth_append)

lemma deep_orig: "origWord wordA = ''a''" "origWord wordB = ''b''"
  by (simp_all add: wordA_def wordB_def)

lemma var_chain:
  fixes rs :: "int result list"
  assumes R: "\<And>st. m_loopDetector st = insert (2, n) D \<Longrightarrow>
                \<exists>m. R st (deepInput (n - 1)) = Some ((''ok'', m), st)"
    and nD: "(2, n) \<notin> D"
  shows "1 \<le> j \<Longrightarrow> j \<le> n \<Longrightarrow> 2 * (n - j) + 3 \<le> f \<Longrightarrow> m_loopDetector st = D \<Longrightarrow>
         take j (m_stack st) = ([], ''a'') # replicate (j - 1) (''x'', ''a'') \<Longrightarrow>
         \<exists>r st'. scoredDFS_loop f R refEnv deepTree st rs [2] (replicate n wordA @ [wordB]) j
                    = Some (rs @ [r], st') \<and> okResult 1 r"
proof (induction "n - j" arbitrary: j f st rs)
  case 0
  then have jn: "j = n" by simp
  let ?ws = "replicate n wordA @ [wordB]"
  let ?st3 = "captureMatch refEnv (?ws ! j) j (matchPolicy refEnv (deepTree ! 2) (?ws ! j))
                (stackUpdate refEnv (deepTree ! 2) j st)"
  have "\<exists>f2. f = Suc (Suc (Suc f2))" using "0.prems"(3) by presburger
  then obtain f2 where f: "f = Suc (Suc (Suc f2))" by blast
  have "length (take j (m_stack st)) = j" using "0.prems"(1,5) by simp
  then have len: "j \<le> length (m_stack st)" by simp
  have st3: "m_stack ?st3 = (([], ''a'') # replicate (n - 1) (''x'', ''a'')) @ [(''x'', ''b'')]"
    using match_stack [OF len] "0.prems"(5) jn
    by (simp add: deepTree_names deep_words deep_orig)
  have d3: "m_loopDetector ?st3 = D" using "0.prems"(4) by (simp add: match_detector)
  let ?st4 = "?st3\<lparr>m_loopDetector := insert (2, n) (m_loopDetector ?st3)\<rparr>"
  have "m_loopDetector ?st4 = insert (2, n) D" using d3 by simp
  from R [OF this] obtain m where
    "R ?st4 (deepInput (n - 1)) = Some ((''ok'', m), ?st4)" by blast
  then have r: "R ?st4 (refValue (m_stack ?st3) ''x'') = Some ((''ok'', m), ?st4)"
    using st3 value_chain [of "n - 1"] by simp
  have nd: "(2, n) \<notin> m_loopDetector ?st3" using d3 nD by simp
  from end_var [where R = R and st = ?st3 and n = n and m = m and f = f2 and rs = rs, OF r nd]
  obtain r where
    h: "handleEndWord (Suc (Suc f2)) R refEnv deepTree ?st3 rs 2 n = Some (rs @ [r], ?st3)"
    and ok: "okResult 1 r" by blast
  have "scoredDFS_loop f R refEnv deepTree st rs [2] ?ws j = Some (rs @ [r], ?st3)"
    unfolding f using h jn by (simp add: Let_def deepTree_policy)
  then show ?case using ok by blast
next
  case (Suc d)
  then have jn: "j < n" by simp
  let ?ws = "replicate n wordA @ [wordB]"
  let ?st3 = "captureMatch refEnv (?ws ! j) j (matchPolicy refEnv (deepTree ! 2) (?ws ! j))
                (stackUpdate refEnv (deepTree ! 2) j st)"
  have "\<exists>f2. f = Suc (Suc f2) \<and> 2 * (n - Suc j) + 3 \<le> f2"
    using Suc.prems(3) jn by presburger
  then obtain f2 where f: "f = Suc (Suc f2)" and f2: "2 * (n - Suc j) + 3 \<le> f2" by blast
  have "length (take j (m_stack st)) = j" using Suc.prems(1,5) by simp
  then have len: "j \<le> length (m_stack st)" by simp
  have st3: "m_stack ?st3 = ([], ''a'') # replicate j (''x'', ''a'')"
  proof -
    have "m_stack ?st3 = (([], ''a'') # replicate (j - 1) (''x'', ''a'')) @ [(''x'', ''a'')]"
      using match_stack [OF len] Suc.prems(5) jn
      by (simp add: deepTree_names deep_words deep_orig)
    also have "\<dots> = ([], ''a'') # replicate (Suc (j - 1)) (''x'', ''a'')"
      by (simp add: replicate_append_same)
    finally show ?thesis using Suc.prems(1) by simp
  qed
  have d3: "m_loopDetector ?st3 = D" using Suc.prems(4) by (simp add: match_detector)
  have t3: "take (Suc j) (m_stack ?st3) = ([], ''a'') # replicate (Suc j - 1) (''x'', ''a'')"
    using st3 by simp
  have dd: "d = n - Suc j" using Suc.hyps(2) by simp
  from Suc.hyps(1) [OF dd _ _ f2 d3 t3, of rs] jn obtain r st' where
    h: "scoredDFS_loop f2 R refEnv deepTree ?st3 rs [2] ?ws (Suc j) = Some (rs @ [r], st')"
    and ok: "okResult 1 r" by auto
  have "scoredDFS_loop f R refEnv deepTree st rs [2] ?ws j = Some (rs @ [r], st')"
    unfolding f using h jn by (simp add: Let_def deepTree_policy deepTree_childs)
  then show ?case using ok by blast
qed

lemma root_dfs_pos:
  assumes R: "\<And>st. m_loopDetector st = insert (2, n) D \<Longrightarrow>
                \<exists>m. R st (deepInput (n - 1)) = Some ((''ok'', m), st)"
    and nD: "(2, n) \<notin> D" and n1: "1 \<le> n" and fuel: "2 * n + 4 \<le> f"
    and det: "m_loopDetector st = D"
  shows "\<exists>r st'. scoredDFS f R refEnv deepTree st ([] :: int result list) 0
                     (replicate n wordA @ [wordB]) 0 = Some ([r], st') \<and> okResult 1 r"
proof -
  let ?ws = "replicate n wordA @ [wordB]"
  let ?st3 = "captureMatch refEnv (?ws ! 0) 0 (matchPolicy refEnv (deepTree ! Suc 0) (?ws ! 0))
                (stackUpdate refEnv (deepTree ! Suc 0) 0 st)"
  have "\<exists>f4. f = Suc (Suc (Suc (Suc f4))) \<and> 2 * (n - 1) + 3 \<le> Suc f4"
    using fuel n1 by presburger
  then obtain f4 where f: "f = Suc (Suc (Suc (Suc f4)))" and f3: "2 * (n - 1) + 3 \<le> Suc f4"
    by blast
  have w0: "?ws ! 0 = wordA" using n1 by (simp add: deep_words)
  have st3: "m_stack ?st3 = [([], ''a'')]"
    using match_stack [of 0 st wordA "matchPolicy refEnv (deepTree ! Suc 0) wordA" "deepTree ! Suc 0"]
    by (simp add: w0 deepTree_names deep_orig)
  have d3: "m_loopDetector ?st3 = D" using det by (simp add: match_detector)
  have t3: "take 1 (m_stack ?st3) = ([], ''a'') # replicate (1 - 1) (''x'', ''a'')"
    using st3 by simp
  have "\<exists>r st'. scoredDFS_loop (Suc f4) R refEnv deepTree ?st3 ([] :: int result list) [2] ?ws 1
            = Some ([] @ [r], st') \<and> okResult 1 r"
    by (rule var_chain [where D = D and n = n, OF _ nD order_refl n1 f3 d3 t3]) (erule R)
  then obtain r st' where
    h: "scoredDFS_loop (Suc f4) R refEnv deepTree ?st3 [] [2] ?ws 1 = Some ([r], st')"
    and ok: "okResult 1 r" by auto
  have "scoredDFS f R refEnv deepTree st [] 0 ?ws 0
      = Some ([r], stackUpdate refEnv (deepTree ! 3) 0 st')"
    unfolding f using h n1 w0 by (simp add: Let_def deepTree_policy deepTree_childs)
  then show ?thesis using ok by blast
qed

lemma root_dfs_zero:
  assumes nD: "(3, 0) \<notin> m_loopDetector st" and fuel: "4 \<le> f"
  shows "\<exists>r st'. scoredDFS f R refEnv deepTree st ([] :: int result list) 0 [wordB] 0
                    = Some ([r], st') \<and> okResult 2 r"
proof -
  let ?st1 = "stackUpdate refEnv (deepTree ! Suc 0) 0 st"
  let ?st3 = "captureMatch refEnv wordB 0 (matchPolicy refEnv (deepTree ! 3) wordB)
                (stackUpdate refEnv (deepTree ! 3) 0 ?st1)"
  have "\<exists>f4. f = Suc (Suc (Suc (Suc f4)))" using fuel by presburger
  then obtain f4 where f: "f = Suc (Suc (Suc (Suc f4)))" by blast
  have "m_loopDetector ?st3 = m_loopDetector ?st1" by (rule match_detector)
  also have "\<dots> = m_loopDetector st" by (simp add: stackUpdate_def)
  finally have d3: "(3, 0) \<notin> m_loopDetector ?st3" using nD by simp
  from end_b [OF d3, of f4 R "[]"] obtain r where
    h: "handleEndWord (Suc f4) R refEnv deepTree ?st3 [] 3 0 = Some ([r], ?st3)"
    and ok: "okResult 2 r" by auto
  have "scoredDFS f R refEnv deepTree st [] 0 [wordB] 0 = Some ([r], ?st3)"
    unfolding f using h by (simp add: Let_def deepTree_policy deepTree_childs)
  then show ?thesis using ok by blast
qed

lemma rec_from_dfs:
  fixes r :: "int result"
  assumes "scoredDFS f (getRecResponse f refEnv T) refEnv T
             (st\<lparr>m_stack := vs_new refEnv, m_scoringAlg := sc_new refEnv\<rparr>) [] 0
             (parseUserInput refEnv v) 0 = Some ([r], st')"
  shows "\<exists>m. getRecResponse (Suc f) refEnv T st v = Some ((routput r, m), st)"
proof -
  have q: "qSort [r] = [r]" by (simp add: qSort_def qSortHelper.simps [of "[r]"])
  have "\<exists>m st''. getRecResponse (Suc f) refEnv T st v = Some ((routput r, m), st'')"
    using assms q by (simp add: getResponse_def getResponses_def sortedResults_def)
  then obtain m st'' where g: "getRecResponse (Suc f) refEnv T st v = Some ((routput r, m), st'')"
    by blast
  have "st'' = st" using getRecResponse_pure [of "Suc f" refEnv T] g unfolding pureR_def by blast
  then show ?thesis using g by blast
qed

lemma deep_rec:
  "2 * n + 5 \<le> k \<Longrightarrow> m_loopDetector st \<inter> pendingPairs n = {} \<Longrightarrow>
     \<exists>m. getRecResponse k refEnv deepTree st (deepInput n) = Some ((''ok'', m), st)"
proof (induction n arbitrary: k st)
  case 0
  have "\<exists>f. k = Suc f \<and> 4 \<le> f" using "0.prems"(1) by presburger
  then obtain f where k: "k = Suc f" and f: "4 \<le> f" by blast
  let ?st0 = "st\<lparr>m_stack := vs_new refEnv, m_scoringAlg := sc_new refEnv\<rparr>"
  have "(3, 0) \<notin> m_loopDetector ?st0" using "0.prems"(2) by (auto simp: pendingPairs_def)
  from root_dfs_zero [OF this f, of "getRecResponse f refEnv deepTree"] obtain r st' where
    h: "scoredDFS f (getRecResponse f refEnv deepTree) refEnv deepTree ?st0 [] 0 [wordB] 0
          = Some ([r], st')" and ok: "okResult 2 (r :: int result)" by blast
  have "parseUserInput refEnv (deepInput 0) = [wordB]" using parse_deepInput [of 0] by simp
  then show ?case using rec_from_dfs [of f deepTree st "deepInput 0" r st'] h ok k
    by (simp add: okResult_def)
next
  case (Suc n)
  have "\<exists>f. k = Suc f \<and> 2 * Suc n + 4 \<le> f" using Suc.prems(1) by presburger
  then obtain f where k: "k = Suc f" and f: "2 * Suc n + 4 \<le> f" by blast
  let ?st0 = "st\<lparr>m_stack := vs_new refEnv, m_scoringAlg := sc_new refEnv\<rparr>"
  let ?D = "m_loopDetector st"
  have nD: "(2, Suc n) \<notin> ?D" using Suc.prems(2) by (auto simp: pendingPairs_def)
  have R: "\<exists>m. getRecResponse f refEnv deepTree s (deepInput (Suc n - 1)) = Some ((''ok'', m), s)"
    if "m_loopDetector s = insert (2, Suc n) ?D" for s
  proof -
    have "pendingPairs n \<subseteq> pendingPairs (Suc n)" by (auto simp: pendingPairs_def)
    moreover have "(2, Suc n) \<notin> pendingPairs n" by (auto simp: pendingPairs_def)
    ultimately have "m_loopDetector s \<inter> pendingPairs n = {}" using that Suc.prems(2) by auto
    moreover have "2 * n + 5 \<le> f" using f by simp
    ultimately show ?thesis using Suc.IH [of f s] by simp
  qed
  have det: "m_loopDetector ?st0 = ?D" by simp
  have n1: "1 \<le> Suc n" by simp
  have "\<exists>r st'. scoredDFS f (getRecResponse f refEnv deepTree) refEnv deepTree ?st0
                    ([] :: int result list) 0 (replicate (Suc n) wordA @ [wordB]) 0
                  = Some ([r], st') \<and> okResult 1 r"
    by (rule root_dfs_pos [where D = ?D and n = "Suc n", OF _ nD n1 f det]) (erule R)
  then obtain r st' where
    h: "scoredDFS f (getRecResponse f refEnv deepTree) refEnv deepTree ?st0 [] 0
          (replicate (Suc n) wordA @ [wordB]) 0 = Some ([r], st')"
    and ok: "okResult 1 (r :: int result)" by auto
  show ?case using rec_from_dfs [of f deepTree st "deepInput (Suc n)" r st'] h ok k
    by (simp add: okResult_def parse_deepInput)
qed

lemma source_at_65:
  "map_option fst (Tree_getResponses 140 refEnv deepTree (newState refEnv) (deepInput 65))
     = Some ([''ok''], [(1, 0)])"
proof -
  let ?R = "getRecResponse 140 refEnv deepTree"
  have R: "\<exists>m. ?R s (deepInput (65 - 1)) = Some ((''ok'', m), s)"
    if "m_loopDetector s = insert (2, 65) {}" for s
  proof -
    have "m_loopDetector s \<inter> pendingPairs 64 = {}" using that by (auto simp: pendingPairs_def)
    then show ?thesis using deep_rec [of 64 140 s] by simp
  qed
  have det: "m_loopDetector (newState refEnv) = {}" by (simp add: newState_def)
  have c: "(2, 65) \<notin> ({} :: (nat \<times> nat) set)" "1 \<le> (65 :: nat)" "2 * 65 + 4 \<le> (140 :: nat)"
    by simp_all
  have "\<exists>r st'. scoredDFS 140 ?R refEnv deepTree (newState refEnv) ([] :: int result list) 0
                    (replicate 65 wordA @ [wordB]) 0 = Some ([r], st') \<and> okResult 1 r"
    by (rule root_dfs_pos [where D = "{}" and n = 65, OF _ c det]) (erule R)
  then obtain r st' where
    h: "scoredDFS 140 ?R refEnv deepTree (newState refEnv) [] 0 (replicate 65 wordA @ [wordB]) 0
          = Some ([r], st')"
    and ok: "okResult 1 (r :: int result)" by auto
  have q: "qSort [r] = [r]" by (simp add: qSort_def qSortHelper.simps [of "[r]"])
  show ?thesis
    using h ok q
    by (simp add: Tree_getResponses_def getResponses_def sortedResults_def parse_deepInput
        okResult_def)
qed

lemma expand_rx_fail:
  assumes "R st (refValue (m_stack st) ''x'') = Some (([], m), st')"
  shows "expandVars (Suc f) R refEnv st ''r[x]'' 0 [] = Some (([], False), st')"
  using assms by (simp add: refEnv_sel template_facts)

lemma end_var_fail:
  fixes rs :: "int result list"
  assumes R: "R (st\<lparr>m_loopDetector := insert (2, n) (m_loopDetector st)\<rparr>)
                (refValue (m_stack st) ''x'') = Some (([], m), st2)"
    and nD: "(2, n) \<notin> m_loopDetector st"
  shows "\<exists>st'. handleEndWord (Suc f) R refEnv deepTree st rs 2 n = Some (rs, st')"
proof -
  let ?st1 = "st\<lparr>m_loopDetector := insert (2, n) (m_loopDetector st)\<rparr>"
  have e: "expandVars (Suc f) R refEnv ?st1 ''r[x]'' 0 [] = Some (([], False), st2)"
    using expand_rx_fail [of R ?st1 m st2 f] R by simp
  have g: "getValidOutput (Suc f) R refEnv ?st1 (omap (deepTree ! 2))
      = Some (None :: int result option, st2)"
    unfolding deepTree_omap using e by (simp add: refEnv_sel refNextValidOutput_def)
  show ?thesis
    unfolding handleEndWord_def using nD g by simp
qed

lemma var_chain_fail:
  fixes rs :: "int result list"
  assumes R: "\<And>st. m_loopDetector st = insert (2, n) D \<Longrightarrow>
                \<exists>m st'. R st (deepInput (n - 1)) = Some (([], m), st')"
    and nD: "(2, n) \<notin> D"
  shows "1 \<le> j \<Longrightarrow> j \<le> n \<Longrightarrow> 2 * (n - j) + 3 \<le> f \<Longrightarrow> m_loopDetector st = D \<Longrightarrow>
         take j (m_stack st) = ([], ''a'') # replicate (j - 1) (''x'', ''a'') \<Longrightarrow>
         \<exists>st'. scoredDFS_loop f R refEnv deepTree st rs [2] (replicate n wordA @ [wordB]) j
                    = Some (rs, st')"
proof (induction "n - j" arbitrary: j f st rs)
  case 0
  then have jn: "j = n" by simp
  let ?ws = "replicate n wordA @ [wordB]"
  let ?st3 = "captureMatch refEnv (?ws ! j) j (matchPolicy refEnv (deepTree ! 2) (?ws ! j))
                (stackUpdate refEnv (deepTree ! 2) j st)"
  have "\<exists>f2. f = Suc (Suc (Suc f2))" using "0.prems"(3) by presburger
  then obtain f2 where f: "f = Suc (Suc (Suc f2))" by blast
  have "length (take j (m_stack st)) = j" using "0.prems"(1,5) by simp
  then have len: "j \<le> length (m_stack st)" by simp
  have st3: "m_stack ?st3 = (([], ''a'') # replicate (n - 1) (''x'', ''a'')) @ [(''x'', ''b'')]"
    using match_stack [OF len] "0.prems"(5) jn
    by (simp add: deepTree_names deep_words deep_orig)
  have d3: "m_loopDetector ?st3 = D" using "0.prems"(4) by (simp add: match_detector)
  let ?st4 = "?st3\<lparr>m_loopDetector := insert (2, n) (m_loopDetector ?st3)\<rparr>"
  have "m_loopDetector ?st4 = insert (2, n) D" using d3 by simp
  from R [OF this] obtain m st5 where
    "R ?st4 (deepInput (n - 1)) = Some (([], m), st5)" by blast
  then have r: "R ?st4 (refValue (m_stack ?st3) ''x'') = Some (([], m), st5)"
    using st3 value_chain [of "n - 1"] by simp
  have nd: "(2, n) \<notin> m_loopDetector ?st3" using d3 nD by simp
  from end_var_fail [where R = R and st = ?st3 and n = n and m = m and f = "Suc f2" and rs = rs
      and ?st2.0 = st5, OF r nd]
  obtain st6 where
    h: "handleEndWord (Suc (Suc f2)) R refEnv deepTree ?st3 rs 2 n = Some (rs, st6)" by blast
  have "scoredDFS_loop f R refEnv deepTree st rs [2] ?ws j = Some (rs, st6)"
    unfolding f using h jn by (simp add: Let_def deepTree_policy)
  then show ?case by blast
next
  case (Suc d)
  then have jn: "j < n" by simp
  let ?ws = "replicate n wordA @ [wordB]"
  let ?st3 = "captureMatch refEnv (?ws ! j) j (matchPolicy refEnv (deepTree ! 2) (?ws ! j))
                (stackUpdate refEnv (deepTree ! 2) j st)"
  have "\<exists>f2. f = Suc (Suc f2) \<and> 2 * (n - Suc j) + 3 \<le> f2"
    using Suc.prems(3) jn by presburger
  then obtain f2 where f: "f = Suc (Suc f2)" and f2: "2 * (n - Suc j) + 3 \<le> f2" by blast
  have "length (take j (m_stack st)) = j" using Suc.prems(1,5) by simp
  then have len: "j \<le> length (m_stack st)" by simp
  have st3: "m_stack ?st3 = ([], ''a'') # replicate j (''x'', ''a'')"
  proof -
    have "m_stack ?st3 = (([], ''a'') # replicate (j - 1) (''x'', ''a'')) @ [(''x'', ''a'')]"
      using match_stack [OF len] Suc.prems(5) jn
      by (simp add: deepTree_names deep_words deep_orig)
    also have "\<dots> = ([], ''a'') # replicate (Suc (j - 1)) (''x'', ''a'')"
      by (simp add: replicate_append_same)
    finally show ?thesis using Suc.prems(1) by simp
  qed
  have d3: "m_loopDetector ?st3 = D" using Suc.prems(4) by (simp add: match_detector)
  have t3: "take (Suc j) (m_stack ?st3) = ([], ''a'') # replicate (Suc j - 1) (''x'', ''a'')"
    using st3 by simp
  have dd: "d = n - Suc j" using Suc.hyps(2) by simp
  from Suc.hyps(1) [OF dd _ _ f2 d3 t3, of rs] jn obtain st' where
    h: "scoredDFS_loop f2 R refEnv deepTree ?st3 rs [2] ?ws (Suc j) = Some (rs, st')"
    by auto
  have "scoredDFS_loop f R refEnv deepTree st rs [2] ?ws j = Some (rs, st')"
    unfolding f using h jn by (simp add: Let_def deepTree_policy deepTree_childs)
  then show ?case by blast
qed

lemma root_dfs_fail:
  assumes R: "\<And>st. m_loopDetector st = insert (2, n) D \<Longrightarrow>
                \<exists>m st'. R st (deepInput (n - 1)) = Some (([], m), st')"
    and nD: "(2, n) \<notin> D" and n1: "1 \<le> n" and fuel: "2 * n + 4 \<le> f"
    and det: "m_loopDetector st = D"
  shows "\<exists>st'. scoredDFS f R refEnv deepTree st ([] :: int result list) 0
                  (replicate n wordA @ [wordB]) 0 = Some ([], st')"
proof -
  let ?ws = "replicate n wordA @ [wordB]"
  let ?st3 = "captureMatch refEnv (?ws ! 0) 0 (matchPolicy refEnv (deepTree ! Suc 0) (?ws ! 0))
                (stackUpdate refEnv (deepTree ! Suc 0) 0 st)"
  have "\<exists>f4. f = Suc (Suc (Suc (Suc f4))) \<and> 2 * (n - 1) + 3 \<le> Suc f4"
    using fuel n1 by presburger
  then obtain f4 where f: "f = Suc (Suc (Suc (Suc f4)))" and f3: "2 * (n - 1) + 3 \<le> Suc f4"
    by blast
  have w0: "?ws ! 0 = wordA" using n1 by (simp add: deep_words)
  have st3: "m_stack ?st3 = [([], ''a'')]"
    using match_stack [of 0 st wordA "matchPolicy refEnv (deepTree ! Suc 0) wordA" "deepTree ! Suc 0"]
    by (simp add: w0 deepTree_names deep_orig)
  have d3: "m_loopDetector ?st3 = D" using det by (simp add: match_detector)
  have t3: "take 1 (m_stack ?st3) = ([], ''a'') # replicate (1 - 1) (''x'', ''a'')"
    using st3 by simp
  have "\<exists>st'. scoredDFS_loop (Suc f4) R refEnv deepTree ?st3 ([] :: int result list) [2] ?ws 1
            = Some ([], st')"
    by (rule var_chain_fail [where D = D and n = n, OF _ nD order_refl n1 f3 d3 t3]) (erule R)
  then obtain st' where
    h: "scoredDFS_loop (Suc f4) R refEnv deepTree ?st3 ([] :: int result list) [2] ?ws 1
          = Some ([], st')"
    by auto
  have "scoredDFS f R refEnv deepTree st ([] :: int result list) 0 ?ws 0
      = Some ([], stackUpdate refEnv (deepTree ! 3) 0 st')"
    unfolding f using h n1 w0 by (simp add: Let_def deepTree_policy deepTree_childs)
  then show ?thesis by blast
qed

lemma capped_from_dfs:
  assumes "scoredDFS f R refEnv T
             (st\<lparr>m_stack := vs_new refEnv, m_scoringAlg := sc_new refEnv\<rparr>) [] 0
             (parseUserInput refEnv v) 0 = Some ([] :: int result list, st')"
  shows "\<exists>st''. getResponse f R refEnv T
             (st\<lparr>m_stack := vs_new refEnv, m_scoringAlg := sc_new refEnv\<rparr>) v
           = Some (([], []), st'')"
  using assms by (simp add: getResponse_def getResponses_def sortedResults_def qSort_def)

lemma capped_rec:
  "c \<le> n \<Longrightarrow> 2 * n + 5 \<le> k \<Longrightarrow> m_loopDetector st \<inter> pendingPairs n = {} \<Longrightarrow>
     \<exists>m st'. cappedRecResponse k refEnv deepTree c st (deepInput n) = Some (([], m), st')"
proof (induction c arbitrary: n k st)
  case 0
  have "\<exists>f. k = Suc f" using "0.prems"(2) by presburger
  then obtain f where k: "k = Suc f" by blast
  show ?case unfolding k by simp
next
  case (Suc c)
  obtain n' where n: "n = Suc n'" and cn: "c \<le> n'" using Suc.prems(1) by (cases n) auto
  have "\<exists>f. k = Suc f \<and> 2 * n + 4 \<le> f" using Suc.prems(2) by presburger
  then obtain f where k: "k = Suc f" and f: "2 * n + 4 \<le> f" by blast
  let ?st0 = "st\<lparr>m_stack := vs_new refEnv, m_scoringAlg := sc_new refEnv\<rparr>"
  let ?D = "m_loopDetector st"
  let ?R = "cappedRecResponse f refEnv deepTree c"
  have nD: "(2, n) \<notin> ?D" using Suc.prems(3) n by (auto simp: pendingPairs_def)
  have R: "\<exists>m st'. ?R s (deepInput (n - 1)) = Some (([], m), st')"
    if "m_loopDetector s = insert (2, n) ?D" for s
  proof -
    have "pendingPairs n' \<subseteq> pendingPairs n" using n by (auto simp: pendingPairs_def)
    moreover have "(2, n) \<notin> pendingPairs n'" using n by (auto simp: pendingPairs_def)
    ultimately have "m_loopDetector s \<inter> pendingPairs n' = {}" using that Suc.prems(3) by auto
    moreover have "2 * n' + 5 \<le> f" using f n by simp
    ultimately show ?thesis using Suc.IH [OF cn, of f s] n by simp
  qed
  have det: "m_loopDetector ?st0 = ?D" by simp
  have n1: "1 \<le> n" using n by simp
  have "\<exists>st'. scoredDFS f ?R refEnv deepTree ?st0 ([] :: int result list) 0
                  (replicate n wordA @ [wordB]) 0 = Some ([], st')"
    by (rule root_dfs_fail [where D = ?D and n = n, OF _ nD n1 f det]) (erule R)
  then obtain st' where
    h: "scoredDFS f ?R refEnv deepTree ?st0 ([] :: int result list) 0
          (parseUserInput refEnv (deepInput n)) 0 = Some ([], st')"
    by (auto simp: parse_deepInput)
  from capped_from_dfs [OF h] obtain st'' where
    "getResponse f ?R refEnv deepTree ?st0 (deepInput n) = Some (([], []), st'')" by blast
  then show ?case unfolding k by simp
qed

lemma capped_at_64:
  "map_option fst
     (getResponses 140 (cappedRecResponse 140 refEnv deepTree 64) refEnv deepTree
        (newState refEnv) (deepInput 65))
     = Some ([], [])"
proof -
  let ?R = "cappedRecResponse 140 refEnv deepTree 64"
  have R: "\<exists>m st'. ?R s (deepInput (65 - 1)) = Some (([], m), st')"
    if "m_loopDetector s = insert (2, 65) {}" for s
  proof -
    have "m_loopDetector s \<inter> pendingPairs 64 = {}" using that by (auto simp: pendingPairs_def)
    then show ?thesis using capped_rec [of 64 64 140 s] by simp
  qed
  have det: "m_loopDetector (newState refEnv) = {}" by (simp add: newState_def)
  have c: "(2, 65) \<notin> ({} :: (nat \<times> nat) set)" "1 \<le> (65 :: nat)" "2 * 65 + 4 \<le> (140 :: nat)"
    by simp_all
  have "\<exists>st'. scoredDFS 140 ?R refEnv deepTree (newState refEnv) ([] :: int result list) 0
                  (replicate 65 wordA @ [wordB]) 0 = Some ([], st')"
    by (rule root_dfs_fail [where D = "{}" and n = 65, OF _ c det]) (erule R)
  then obtain st' where
    h: "scoredDFS 140 ?R refEnv deepTree (newState refEnv) ([] :: int result list) 0
          (replicate 65 wordA @ [wordB]) 0 = Some ([], st')" by blast
  show ?thesis
    using h by (simp add: getResponses_def sortedResults_def parse_deepInput qSort_def)
qed

text \<open>
  C1, as stated, caps the expansion recursion at 64 and treats an overrun as an expansion
  failure. \<^verbatim>\<open>getRecResponse\<close> counts nothing: on the input of 65 times \<^verbatim>\<open>a\<close> and then
  \<^verbatim>\<open>b\<close> the expansions nest 65 deep (the loop detector holds 65 pairs when the innermost
  one runs), none of them fails, and the query answers with the output of rule 1. With
  the recursion capped at 64 the innermost expansion is the overrun, every expansion
  around it fails in turn, and the same query has no response.
\<close>

theorem recursion_deeper_than_cap:
  "map_option fst (Tree_getResponses 140 refEnv deepTree (newState refEnv) (deepInput 65))
     = Some ([''ok''], [(1, 0)]) \<and>
   map_option fst
     (getResponses 140 (cappedRecResponse 140 refEnv deepTree 64) refEnv deepTree
        (newState refEnv) (deepInput 65))
     = Some ([], [])"
  using source_at_65 capped_at_64 by (rule conjI)

end
